theory Spec2Isabelle
  imports Complex_Main "HOL-Library.Word"
begin

unbundle bit_operations_syntax

section \<open>Machine types\<close>

type_synonym u8 = "8 word"
type_synonym u16 = "16 word"
type_synonym u32 = "32 word"
type_synonym i64 = "64 word"

section \<open>float64\<close>

text \<open>
  A finite \<open>float64\<close> is modelled by the rational number it denotes. Every arithmetic
  operation of the source is the exact rational operation followed by \<open>fl64\<close>, the
  rounding of IEEE 754 binary64: round to nearest, ties to even, 53 significant bits,
  least exponent \<open>-1074\<close>. Infinities, NaN and the sign of zero are not modelled: every
  operand of the decoder is an integer below \<open>2 ^ 24\<close> or a quotient, difference or
  product of such integers with 10, 100 and 3, so none of them arises.
\<close>

type_synonym float64 = rat

function log2floor :: "nat \<Rightarrow> nat" where
  "log2floor n = (if n < 2 then 0 else 1 + log2floor (n div 2))"
  by pat_completeness auto
termination
  by (relation "measure id") auto

declare log2floor.simps [simp del]

definition pow2 :: "int \<Rightarrow> rat" where
  "pow2 k = (if 0 \<le> k then 2 ^ nat k else 1 / 2 ^ nat (- k))"

text \<open>
  \<open>ilog2 x\<close> is the integer \<open>k\<close> with \<open>2 ^ k \<le> x < 2 ^ (k + 1)\<close>, for \<open>0 < x\<close>;
  below 1 it is found from \<open>n\<close>, the logarithm of the integer part of \<open>1 / x\<close>.
\<close>

definition ilog2_below :: "rat \<Rightarrow> int \<Rightarrow> int" where
  "ilog2_below x n = (if x = pow2 (- n) then - n else - n - 1)"

definition ilog2 :: "rat \<Rightarrow> int" where
  "ilog2 x = (if 1 \<le> x then int (log2floor (nat \<lfloor>x\<rfloor>))
     else ilog2_below x (int (log2floor (nat \<lfloor>1 / x\<rfloor>))))"

text \<open>Round to the nearest integer, ties to the even one.\<close>

definition rne :: "rat \<Rightarrow> int" where
  "rne x = (if x - of_int \<lfloor>x\<rfloor> < 1 / 2 then \<lfloor>x\<rfloor>
            else if 1 / 2 < x - of_int \<lfloor>x\<rfloor> then \<lfloor>x\<rfloor> + 1
            else if even \<lfloor>x\<rfloor> then \<lfloor>x\<rfloor> else \<lfloor>x\<rfloor> + 1)"

text \<open>Round to the nearest multiple of \<open>2 ^ e\<close>.\<close>

definition round_at :: "int \<Rightarrow> rat \<Rightarrow> rat" where
  "round_at e x = of_int (rne (x / pow2 e)) * pow2 e"

definition fl64 :: "rat \<Rightarrow> float64" where
  "fl64 x = (if x = 0 then 0 else round_at (max (ilog2 \<bar>x\<bar> - 52) (- 1074)) x)"

definition fdiv :: "float64 \<Rightarrow> float64 \<Rightarrow> float64" where
  "fdiv a b = fl64 (a / b)"

definition fsub :: "float64 \<Rightarrow> float64 \<Rightarrow> float64" where
  "fsub a b = fl64 (a - b)"

definition fmul :: "float64 \<Rightarrow> float64 \<Rightarrow> float64" where
  "fmul a b = fl64 (a * b)"

text \<open>Go's \<open>math.Round\<close>: the nearest integer, halfway cases away from zero.\<close>

definition math_Round :: "float64 \<Rightarrow> float64" where
  "math_Round x = (if 0 \<le> x then of_int \<lfloor>x + 1 / 2\<rfloor> else - of_int \<lfloor>- x + 1 / 2\<rfloor>)"

text \<open>The conversions \<open>float64(v)\<close> of the source, from \<open>uint8\<close> and from \<open>int64\<close>.\<close>

definition float64_of_u8 :: "u8 \<Rightarrow> float64" where
  "float64_of_u8 v = fl64 (of_nat (unat v))"

definition float64_of_i64 :: "i64 \<Rightarrow> float64" where
  "float64_of_i64 v = fl64 (of_int (sint v))"

section \<open>Constants and data (rts.go, lines 13--45)\<close>

definition SupportedVersion :: u8 where
  "SupportedVersion = 1"

definition Epoch :: i64 where
  "Epoch = 1767225600000"

definition VarIntScale :: float64 where
  "VarIntScale = 100"

definition IntensityOffset :: float64 where
  "IntensityOffset = 3"

record RTSHeader =
  Version :: u8
  TimestampMs :: i64
  StationCount :: u16
  IntCount :: u16
  Reserved :: u16

record Station =
  ID :: u32
  PGA :: float64
  PGV :: float64
  Intensity :: float64
  IsAlert :: bool

record AreaIntensity =
  Code :: u16
  Intensity :: float64

record RTSData =
  Header :: RTSHeader
  Stations :: "Station list"
  AreaIntensities :: "AreaIntensity list"

text \<open>
  The errors \<open>Parse\<close> can return: the two sentinel values of package \<open>io\<close> that
  \<open>io.ReadFull\<close> produces, and the value built by
  \<open>fmt.Errorf("unsupported RTS version: %d", version)\<close>, which carries the version.
\<close>

datatype error = EOF | ErrUnexpectedEOF | UnsupportedVersion u8

section \<open>Helper methods (rts.go, lines 57--162)\<close>

text \<open>
  The state of the parser is its \<open>reader\<close>, an \<open>io.Reader\<close>: the bytes not yet read.
  \<open>io.ReadFull\<close> fills the buffer or fails: with \<open>io.EOF\<close> when no byte was read, with
  \<open>io.ErrUnexpectedEOF\<close> when some but not all were. Each reader returns the error, or
  the value together with the new state of the reader.
\<close>

definition readExact :: "nat \<Rightarrow> u8 list \<Rightarrow> error + (u8 list \<times> u8 list)" where
  "readExact n r =
     (if n \<le> length r then Inr (take n r, drop n r)
      else if r = [] then Inl EOF
      else Inl ErrUnexpectedEOF)"

definition readU8 :: "u8 list \<Rightarrow> error + (u8 \<times> u8 list)" where
  "readU8 r = (case readExact 1 r of Inl err \<Rightarrow> Inl err
     | Inr (buf, r') \<Rightarrow> Inr (buf ! 0, r'))"

text \<open>\<open>binary.LittleEndian.Uint16\<close> and \<open>Uint32\<close>.\<close>

definition Uint16 :: "u8 list \<Rightarrow> u16" where
  "Uint16 b = ucast (b ! 0) OR push_bit 8 (ucast (b ! 1))"

definition Uint32 :: "u8 list \<Rightarrow> u32" where
  "Uint32 b = ucast (b ! 0) OR push_bit 8 (ucast (b ! 1))
     OR push_bit 16 (ucast (b ! 2)) OR push_bit 24 (ucast (b ! 3))"

definition readU16 :: "u8 list \<Rightarrow> error + (u16 \<times> u8 list)" where
  "readU16 r = (case readExact 2 r of Inl err \<Rightarrow> Inl err
     | Inr (buf, r') \<Rightarrow> Inr (Uint16 buf, r'))"

definition readU32 :: "u8 list \<Rightarrow> error + (u32 \<times> u8 list)" where
  "readU32 r = (case readExact 4 r of Inl err \<Rightarrow> Inl err
     | Inr (buf, r') \<Rightarrow> Inr (Uint32 buf, r'))"

text \<open>On \<open>int64\<close>, \<open><<\<close> is \<open>push_bit\<close> and \<open>>>\<close> is the arithmetic shift \<open>signed_drop_bit\<close>.\<close>

definition readTime40 :: "u8 list \<Rightarrow> error + (i64 \<times> u8 list)" where
  "readTime40 r = (case readExact 5 r of Inl err \<Rightarrow> Inl err
     | Inr (buf, r') \<Rightarrow>
         (let raw = (ucast (buf ! 0) OR push_bit 8 (ucast (buf ! 1))
                     OR push_bit 16 (ucast (buf ! 2)) OR push_bit 24 (ucast (buf ! 3))
                     OR push_bit 32 (ucast (buf ! 4)) :: i64);
              raw = signed_drop_bit 24 (push_bit 24 raw)
          in Inr (Epoch + raw, r')))"

definition readVarInt :: "u8 list \<Rightarrow> error + (float64 \<times> u8 list)" where
  "readVarInt r = (case readU8 r of Inl err \<Rightarrow> Inl err
     | Inr (marker, r1) \<Rightarrow>
         if marker \<le> 0xFC then
           Inr (fdiv (float64_of_i64 (ucast marker)) VarIntScale, r1)
         else if marker = 0xFD then
           (case readU16 r1 of Inl err \<Rightarrow> Inl err
            | Inr (val, r2) \<Rightarrow> Inr (fdiv (float64_of_i64 (ucast val)) VarIntScale, r2))
         else if marker = 0xFE then
           (case readExact 3 r1 of Inl err \<Rightarrow> Inl err
            | Inr (buf, r2) \<Rightarrow>
                (let val = (ucast (buf ! 0) OR push_bit 8 (ucast (buf ! 1))
                            OR push_bit 16 (ucast (buf ! 2)) :: u32)
                 in Inr (fdiv (float64_of_i64 (ucast val)) VarIntScale, r2)))
         else
           Inr (fdiv (float64_of_i64 0) VarIntScale, r1))"

definition readIntensityAlert :: "u8 list \<Rightarrow> error + ((float64 \<times> bool) \<times> u8 list)" where
  "readIntensityAlert r = (case readU8 r of Inl err \<Rightarrow> Inl err
     | Inr (raw, r') \<Rightarrow>
         (let val = fsub (fdiv (float64_of_u8 (raw AND 0x7F)) 10) IntensityOffset;
              intensity = fdiv (math_Round (fmul val 10)) 10;
              isAlert = (raw AND 0x80 \<noteq> 0)
          in Inr ((intensity, isAlert), r')))"

section \<open>Main parse logic (rts.go, lines 166--265)\<close>

text \<open>The body of the station loop (lines 208--234): one record, in field order.\<close>

definition readStation :: "u8 list \<Rightarrow> error + (Station \<times> u8 list)" where
  "readStation r = (case readU32 r of Inl err \<Rightarrow> Inl err
     | Inr (id', r1) \<Rightarrow>
    (case readVarInt r1 of Inl err \<Rightarrow> Inl err
     | Inr (pga, r2) \<Rightarrow>
    (case readVarInt r2 of Inl err \<Rightarrow> Inl err
     | Inr (pgv, r3) \<Rightarrow>
    (case readIntensityAlert r3 of Inl err \<Rightarrow> Inl err
     | Inr ((intensity, isAlert), r4) \<Rightarrow>
         Inr (\<lparr>ID = id', PGA = pga, PGV = pgv,
               Station.Intensity = intensity, IsAlert = isAlert\<rparr>, r4)))))"

text \<open>The body of the area-intensity loop (lines 240--257). The raw byte is not masked.\<close>

definition readAreaIntensity :: "u8 list \<Rightarrow> error + (AreaIntensity \<times> u8 list)" where
  "readAreaIntensity r = (case readU16 r of Inl err \<Rightarrow> Inl err
     | Inr (code, r1) \<Rightarrow>
    (case readU8 r1 of Inl err \<Rightarrow> Inl err
     | Inr (rawI, r2) \<Rightarrow>
         (let val = fsub (fdiv (float64_of_u8 rawI) 10) IntensityOffset;
              intensity = fdiv (math_Round (fmul val 10)) 10
          in Inr (\<lparr>Code = code, Intensity = intensity\<rparr>, r2))))"

text \<open>
  \<open>for i := 0; i < int(stationCount); i++ { ...; stations[i] = Station{...} }\<close>
  over the slice made by \<open>make([]Station, stationCount)\<close>; an error leaves the loop and
  \<open>Parse\<close> at once.
\<close>

function stationLoop ::
  "nat \<Rightarrow> nat \<Rightarrow> Station list \<Rightarrow> u8 list \<Rightarrow> error + (Station list \<times> u8 list)" where
  "stationLoop i n stations r =
     (if i < n then
        (case readStation r of Inl err \<Rightarrow> Inl err
         | Inr (st, r') \<Rightarrow> stationLoop (i + 1) n (stations[i := st]) r')
      else Inr (stations, r))"
  by pat_completeness auto
termination
  by (relation "measure (\<lambda>(i, n, stations, r). n - i)") auto

declare stationLoop.simps [simp del]

function areaLoop ::
  "nat \<Rightarrow> nat \<Rightarrow> AreaIntensity list \<Rightarrow> u8 list
     \<Rightarrow> error + (AreaIntensity list \<times> u8 list)" where
  "areaLoop i n areaInts r =
     (if i < n then
        (case readAreaIntensity r of Inl err \<Rightarrow> Inl err
         | Inr (a, r') \<Rightarrow> areaLoop (i + 1) n (areaInts[i := a]) r')
      else Inr (areaInts, r))"
  by pat_completeness auto
termination
  by (relation "measure (\<lambda>(i, n, areaInts, r). n - i)") auto

declare areaLoop.simps [simp del]

text \<open>The zero values that \<open>make\<close> fills the slices with.\<close>

definition zeroStation :: Station where
  "zeroStation = \<lparr>ID = 0, PGA = 0, PGV = 0, Station.Intensity = 0, IsAlert = False\<rparr>"

definition zeroAreaIntensity :: AreaIntensity where
  "zeroAreaIntensity = \<lparr>Code = 0, Intensity = 0\<rparr>"

text \<open>
  \<open>Parse\<close> returns the error (and \<open>nil\<close> for the document), or the document together
  with what is left in the reader.
\<close>

definition Parse :: "u8 list \<Rightarrow> error + (RTSData \<times> u8 list)" where
  "Parse r0 = (case readU8 r0 of Inl err \<Rightarrow> Inl err
     | Inr (version, r1) \<Rightarrow>
    if version \<noteq> SupportedVersion then Inl (UnsupportedVersion version)
    else
    (case readTime40 r1 of Inl err \<Rightarrow> Inl err
     | Inr (timestampMs, r2) \<Rightarrow>
    (case readU16 r2 of Inl err \<Rightarrow> Inl err
     | Inr (stationCount, r3) \<Rightarrow>
    (case readU16 r3 of Inl err \<Rightarrow> Inl err
     | Inr (intCount, r4) \<Rightarrow>
    (case readU16 r4 of Inl err \<Rightarrow> Inl err
     | Inr (reserved, r5) \<Rightarrow>
    (let header = \<lparr>Version = version, TimestampMs = timestampMs,
                     StationCount = stationCount, IntCount = intCount,
                     Reserved = reserved\<rparr>
     in
    (case stationLoop 0 (unat stationCount)
            (replicate (unat stationCount) zeroStation) r5 of Inl err \<Rightarrow> Inl err
     | Inr (stations, r6) \<Rightarrow>
    (case areaLoop 0 (unat intCount)
            (replicate (unat intCount) zeroAreaIntensity) r6 of Inl err \<Rightarrow> Inl err
     | Inr (areaInts, r7) \<Rightarrow>
         Inr (\<lparr>Header = header, Stations = stations,
               AreaIntensities = areaInts\<rparr>, r7)))))))))"

section \<open>The parser and its reader as objects (rts.go, lines 47--265)\<close>

text \<open>
  \<open>type RTSParser struct { reader io.Reader }\<close>: a parser holds a reference to its reader.
  The embedding above passes the unread bytes of that reader from call to call. To speak of
  two parsers at once, the methods are embedded a second time, as they are written, on a
  memory of reader objects: a method takes the parser and the memory and returns its result
  with the memory it leaves. The readers are those of \<open>bytes.NewReader\<close>, as in \<open>main\<close>
  (line 278): the byte slice \<open>s\<close> and the read position \<open>i\<close>. The field of a parser is
  not assigned after \<open>NewRTSParser\<close>, so a parser is the value of its field.
\<close>

record bytes_Reader =
  rd_s :: "u8 list"
  rd_i :: nat

type_synonym heap = "nat \<Rightarrow> bytes_Reader"

record RTSParser =
  reader :: nat

text \<open>The bytes of a reader that are not read yet, \<open>s[i:]\<close>.\<close>

definition unread :: "bytes_Reader \<Rightarrow> u8 list" where
  "unread rd = drop (rd_i rd) (rd_s rd)"

definition bytes_NewReader :: "u8 list \<Rightarrow> bytes_Reader" where
  "bytes_NewReader b = \<lparr>rd_s = b, rd_i = 0\<rparr>"

definition NewRTSParser :: "nat \<Rightarrow> RTSParser" where
  "NewRTSParser r = \<lparr>reader = r\<rparr>"

text \<open>
  \<open>io.ReadFull(p.reader, buf)\<close> with \<open>n = len(buf)\<close> on the reader at address \<open>r\<close>. It
  returns \<open>n\<close> bytes and moves the read position past them. When fewer remain, the reader
  hands them out all the same, so its position is at the end, and the error is
  \<open>io.ErrUnexpectedEOF\<close>; when none remains, it is \<open>io.EOF\<close>.
\<close>

definition io_ReadFull :: "nat \<Rightarrow> nat \<Rightarrow> heap \<Rightarrow> (error + u8 list) \<times> heap" where
  "io_ReadFull r n h =
     (let rd = h r in
      if n \<le> length (rd_s rd) - rd_i rd then
        (Inr (take n (drop (rd_i rd) (rd_s rd))), h(r := rd\<lparr>rd_i := rd_i rd + n\<rparr>))
      else if length (rd_s rd) \<le> rd_i rd then (Inl EOF, h)
      else (Inl ErrUnexpectedEOF, h(r := rd\<lparr>rd_i := length (rd_s rd)\<rparr>)))"

text \<open>
  \<open>v, err := m(); if err != nil { return nil, err }\<close> followed by the rest of the
  method, which uses \<open>v\<close>; \<open>return v, nil\<close>; and \<open>return nil, err\<close>.
\<close>

definition bind_h ::
  "(heap \<Rightarrow> (error + 'a) \<times> heap) \<Rightarrow> ('a \<Rightarrow> heap \<Rightarrow> (error + 'b) \<times> heap)
     \<Rightarrow> heap \<Rightarrow> (error + 'b) \<times> heap" where
  "bind_h m k h = (case m h of (Inl err, h') \<Rightarrow> (Inl err, h') | (Inr v, h') \<Rightarrow> k v h')"

definition return_h :: "'a \<Rightarrow> heap \<Rightarrow> (error + 'a) \<times> heap" where
  "return_h v h = (Inr v, h)"

definition fail_h :: "error \<Rightarrow> heap \<Rightarrow> (error + 'a) \<times> heap" where
  "fail_h err h = (Inl err, h)"

text \<open>The helper methods (lines 57--162).\<close>

definition RTSParser_readExact :: "nat \<Rightarrow> RTSParser \<Rightarrow> heap \<Rightarrow> (error + u8 list) \<times> heap" where
  "RTSParser_readExact n p = io_ReadFull (reader p) n"

definition RTSParser_readU8 :: "RTSParser \<Rightarrow> heap \<Rightarrow> (error + u8) \<times> heap" where
  "RTSParser_readU8 p = bind_h (RTSParser_readExact 1 p) (\<lambda>buf. return_h (buf ! 0))"

definition RTSParser_readU16 :: "RTSParser \<Rightarrow> heap \<Rightarrow> (error + u16) \<times> heap" where
  "RTSParser_readU16 p = bind_h (RTSParser_readExact 2 p) (\<lambda>buf. return_h (Uint16 buf))"

definition RTSParser_readU32 :: "RTSParser \<Rightarrow> heap \<Rightarrow> (error + u32) \<times> heap" where
  "RTSParser_readU32 p = bind_h (RTSParser_readExact 4 p) (\<lambda>buf. return_h (Uint32 buf))"

definition RTSParser_readTime40 :: "RTSParser \<Rightarrow> heap \<Rightarrow> (error + i64) \<times> heap" where
  "RTSParser_readTime40 p = bind_h (RTSParser_readExact 5 p) (\<lambda>buf.
     (let raw = (ucast (buf ! 0) OR push_bit 8 (ucast (buf ! 1))
                 OR push_bit 16 (ucast (buf ! 2)) OR push_bit 24 (ucast (buf ! 3))
                 OR push_bit 32 (ucast (buf ! 4)) :: i64);
          raw = signed_drop_bit 24 (push_bit 24 raw)
      in return_h (Epoch + raw)))"

definition RTSParser_readVarInt :: "RTSParser \<Rightarrow> heap \<Rightarrow> (error + float64) \<times> heap" where
  "RTSParser_readVarInt p = bind_h (RTSParser_readU8 p) (\<lambda>marker.
     if marker \<le> 0xFC then
       return_h (fdiv (float64_of_i64 (ucast marker)) VarIntScale)
     else if marker = 0xFD then
       bind_h (RTSParser_readU16 p) (\<lambda>val.
         return_h (fdiv (float64_of_i64 (ucast val)) VarIntScale))
     else if marker = 0xFE then
       bind_h (RTSParser_readExact 3 p) (\<lambda>buf.
         (let val = (ucast (buf ! 0) OR push_bit 8 (ucast (buf ! 1))
                     OR push_bit 16 (ucast (buf ! 2)) :: u32)
          in return_h (fdiv (float64_of_i64 (ucast val)) VarIntScale)))
     else
       return_h (fdiv (float64_of_i64 0) VarIntScale))"

definition RTSParser_readIntensityAlert ::
  "RTSParser \<Rightarrow> heap \<Rightarrow> (error + (float64 \<times> bool)) \<times> heap" where
  "RTSParser_readIntensityAlert p = bind_h (RTSParser_readU8 p) (\<lambda>raw.
     (let val = fsub (fdiv (float64_of_u8 (raw AND 0x7F)) 10) IntensityOffset;
          intensity = fdiv (math_Round (fmul val 10)) 10;
          isAlert = (raw AND 0x80 \<noteq> 0)
      in return_h (intensity, isAlert)))"

text \<open>The bodies of the two loops and the loops (lines 206--257).\<close>

definition RTSParser_readStation :: "RTSParser \<Rightarrow> heap \<Rightarrow> (error + Station) \<times> heap" where
  "RTSParser_readStation p =
     bind_h (RTSParser_readU32 p) (\<lambda>id'.
     bind_h (RTSParser_readVarInt p) (\<lambda>pga.
     bind_h (RTSParser_readVarInt p) (\<lambda>pgv.
     bind_h (RTSParser_readIntensityAlert p) (\<lambda>(intensity, isAlert).
       return_h \<lparr>ID = id', PGA = pga, PGV = pgv,
                  Station.Intensity = intensity, IsAlert = isAlert\<rparr>))))"

definition RTSParser_readAreaIntensity ::
  "RTSParser \<Rightarrow> heap \<Rightarrow> (error + AreaIntensity) \<times> heap" where
  "RTSParser_readAreaIntensity p =
     bind_h (RTSParser_readU16 p) (\<lambda>code.
     bind_h (RTSParser_readU8 p) (\<lambda>rawI.
       (let val = fsub (fdiv (float64_of_u8 rawI) 10) IntensityOffset;
            intensity = fdiv (math_Round (fmul val 10)) 10
        in return_h \<lparr>Code = code, Intensity = intensity\<rparr>)))"

function RTSParser_stationLoop ::
  "nat \<Rightarrow> nat \<Rightarrow> Station list \<Rightarrow> RTSParser \<Rightarrow> heap \<Rightarrow> (error + Station list) \<times> heap" where
  "RTSParser_stationLoop i n stations p h =
     (if i < n then
        (case RTSParser_readStation p h of (Inl err, h') \<Rightarrow> (Inl err, h')
         | (Inr st, h') \<Rightarrow> RTSParser_stationLoop (i + 1) n (stations[i := st]) p h')
      else (Inr stations, h))"
  by pat_completeness auto
termination
  by (relation "measure (\<lambda>(i, n, stations, p, h). n - i)") auto

declare RTSParser_stationLoop.simps [simp del]

function RTSParser_areaLoop ::
  "nat \<Rightarrow> nat \<Rightarrow> AreaIntensity list \<Rightarrow> RTSParser \<Rightarrow> heap
     \<Rightarrow> (error + AreaIntensity list) \<times> heap" where
  "RTSParser_areaLoop i n areaInts p h =
     (if i < n then
        (case RTSParser_readAreaIntensity p h of (Inl err, h') \<Rightarrow> (Inl err, h')
         | (Inr a, h') \<Rightarrow> RTSParser_areaLoop (i + 1) n (areaInts[i := a]) p h')
      else (Inr areaInts, h))"
  by pat_completeness auto
termination
  by (relation "measure (\<lambda>(i, n, areaInts, p, h). n - i)") auto

declare RTSParser_areaLoop.simps [simp del]

text \<open>\<open>func (p *RTSParser) Parse() (*RTSData, error)\<close> (lines 166--265).\<close>

definition RTSParser_Parse :: "RTSParser \<Rightarrow> heap \<Rightarrow> (error + RTSData) \<times> heap" where
  "RTSParser_Parse p =
     bind_h (RTSParser_readU8 p) (\<lambda>version.
     if version \<noteq> SupportedVersion then fail_h (UnsupportedVersion version)
     else
     bind_h (RTSParser_readTime40 p) (\<lambda>timestampMs.
     bind_h (RTSParser_readU16 p) (\<lambda>stationCount.
     bind_h (RTSParser_readU16 p) (\<lambda>intCount.
     bind_h (RTSParser_readU16 p) (\<lambda>reserved.
     (let header = \<lparr>Version = version, TimestampMs = timestampMs,
                      StationCount = stationCount, IntCount = intCount,
                      Reserved = reserved\<rparr>
      in
     bind_h (RTSParser_stationLoop 0 (unat stationCount)
               (replicate (unat stationCount) zeroStation) p) (\<lambda>stations.
     bind_h (RTSParser_areaLoop 0 (unat intCount)
               (replicate (unat intCount) zeroAreaIntensity) p) (\<lambda>areaInts.
       return_h \<lparr>Header = header, Stations = stations,
                  AreaIntensities = areaInts\<rparr>))))))))"

section \<open>The bounds check of rts.js (lines 23--48)\<close>

text \<open>
  The JavaScript parser keeps a \<open>DataView\<close> of the whole input and an \<open>offset\<close> into
  it. \<open>_checkBounds\<close> throws \<open>Error(`Unexpected EOF: expected ${size} bytes`)\<close>, modelled by
  a value that carries \<open>size\<close>. A read returns the number read and the parser with its
  offset advanced.
\<close>

record js_RTSParser =
  view :: "u8 list"
  offset :: nat

datatype js_Error = js_UnexpectedEOF nat

definition js_checkBounds :: "nat \<Rightarrow> js_RTSParser \<Rightarrow> js_Error + unit" where
  "js_checkBounds sz p =
     (if offset p + sz > length (view p) then Inl (js_UnexpectedEOF sz) else Inr ())"

definition js_readU8 :: "js_RTSParser \<Rightarrow> js_Error + (nat \<times> js_RTSParser)" where
  "js_readU8 p = (case js_checkBounds 1 p of Inl e \<Rightarrow> Inl e
     | Inr u \<Rightarrow> Inr (unat (view p ! offset p), p\<lparr>offset := offset p + 1\<rparr>))"

definition js_readU16 :: "js_RTSParser \<Rightarrow> js_Error + (nat \<times> js_RTSParser)" where
  "js_readU16 p = (case js_checkBounds 2 p of Inl e \<Rightarrow> Inl e
     | Inr u \<Rightarrow> Inr (unat (view p ! offset p) + 256 * unat (view p ! (offset p + 1)),
                  p\<lparr>offset := offset p + 2\<rparr>))"

definition js_readU32 :: "js_RTSParser \<Rightarrow> js_Error + (nat \<times> js_RTSParser)" where
  "js_readU32 p = (case js_checkBounds 4 p of Inl e \<Rightarrow> Inl e
     | Inr u \<Rightarrow> Inr (unat (view p ! offset p) + 256 * unat (view p ! (offset p + 1))
                    + 65536 * unat (view p ! (offset p + 2))
                    + 16777216 * unat (view p ! (offset p + 3)),
                  p\<lparr>offset := offset p + 4\<rparr>))"

section \<open>The bounds check of rts.ts (src/typescript/README.md, lines 82--100)\<close>

text \<open>
  The TypeScript parser has the same two fields, \<open>view\<close> and \<open>offset\<close>. Its \<open>checkBounds\<close>
  throws \<open>Error(`Unexpected EOF: expected ${size} bytes, but only
  ${this.view.byteLength - this.offset} left.`)\<close>, modelled by a value that carries both
  numbers.
\<close>

type_synonym ts_RTSParser = js_RTSParser

datatype ts_Error = ts_UnexpectedEOF nat int

definition ts_checkBounds :: "nat \<Rightarrow> ts_RTSParser \<Rightarrow> ts_Error + unit" where
  "ts_checkBounds sz p =
     (if offset p + sz > length (view p)
      then Inl (ts_UnexpectedEOF sz (int (length (view p)) - int (offset p)))
      else Inr ())"

section \<open>Definitions used to state and prove the properties\<close>

text \<open>
  \<open>recordsInOrder rd n\<close> decodes \<open>n\<close> consecutive records with the record reader \<open>rd\<close>
  and lists them in the order in which they lie on the wire: the first record read is the
  first element. It fails with the error of the first record that cannot be read.
\<close>

fun recordsInOrder ::
  "(u8 list \<Rightarrow> error + ('a \<times> u8 list)) \<Rightarrow> nat \<Rightarrow> u8 list \<Rightarrow> error + ('a list \<times> u8 list)" where
  "recordsInOrder rd 0 r = Inr ([], r)"
| "recordsInOrder rd (Suc n) r = (case rd r of Inl e \<Rightarrow> Inl e
     | Inr (x, r') \<Rightarrow>
    (case recordsInOrder rd n r' of Inl e \<Rightarrow> Inl e
     | Inr (xs, r'') \<Rightarrow> Inr (x # xs, r'')))"

text \<open>The five bytes of a Time40 field, read little-endian as an unsigned number.\<close>

definition le40 :: "u8 \<Rightarrow> u8 \<Rightarrow> u8 \<Rightarrow> u8 \<Rightarrow> u8 \<Rightarrow> int" where
  "le40 b0 b1 b2 b3 b4 = uint b0 + 256 * uint b1 + 65536 * uint b2 + 16777216 * uint b3
     + 4294967296 * uint b4"

text \<open>The two end-of-input errors of \<open>io.ReadFull\<close>.\<close>

definition eofErr :: "error \<Rightarrow> bool" where
  "eofErr e \<longleftrightarrow> e = EOF \<or> e = ErrUnexpectedEOF"

text \<open>A reader that fails with end-of-input errors only.\<close>

definition eofOnly :: "(u8 list \<Rightarrow> error + 'a) \<Rightarrow> bool" where
  "eofOnly f \<longleftrightarrow> (\<forall>r e. f r = Inl e \<longrightarrow> eofErr e)"

text \<open>
  A reader that, when it succeeds, has consumed a prefix \<open>p\<close> of at least \<open>k\<close> bytes,
  and returns the same value whatever follows \<open>p\<close>.
\<close>

definition consumes :: "(u8 list \<Rightarrow> error + ('a \<times> u8 list)) \<Rightarrow> nat \<Rightarrow> bool" where
  "consumes f k \<longleftrightarrow> (\<forall>r v r'. f r = Inr (v, r') \<longrightarrow>
     (\<exists>p. r = p @ r' \<and> k \<le> length p \<and> (\<forall>s. f (p @ s) = Inr (v, s))))"

text \<open>What \<open>Parse\<close> does after the version check, with the loops in closed form.\<close>

definition afterVersion :: "u8 \<Rightarrow> u8 list \<Rightarrow> error + (RTSData \<times> u8 list)" where
  "afterVersion version r1 =
    (case readTime40 r1 of Inl err \<Rightarrow> Inl err
     | Inr (timestampMs, r2) \<Rightarrow>
    (case readU16 r2 of Inl err \<Rightarrow> Inl err
     | Inr (stationCount, r3) \<Rightarrow>
    (case readU16 r3 of Inl err \<Rightarrow> Inl err
     | Inr (intCount, r4) \<Rightarrow>
    (case readU16 r4 of Inl err \<Rightarrow> Inl err
     | Inr (reserved, r5) \<Rightarrow>
    (case recordsInOrder readStation (unat stationCount) r5 of Inl err \<Rightarrow> Inl err
     | Inr (stations, r6) \<Rightarrow>
    (case recordsInOrder readAreaIntensity (unat intCount) r6 of Inl err \<Rightarrow> Inl err
     | Inr (areaInts, r7) \<Rightarrow>
         Inr (\<lparr>Header = \<lparr>Version = version, TimestampMs = timestampMs,
                     StationCount = stationCount, IntCount = intCount,
                     Reserved = reserved\<rparr>, Stations = stations,
               AreaIntensities = areaInts\<rparr>, r7)))))))"

text \<open>
  \<open>runs_as a m f\<close>: the method \<open>m\<close> of a parser whose reader is at address \<open>a\<close> returns
  what \<open>f\<close> returns on the unread bytes of that reader and leaves the reader with the unread
  bytes that \<open>f\<close> leaves; it changes no other object, and not the bytes of its reader.
\<close>

definition runs_as ::
  "nat \<Rightarrow> (heap \<Rightarrow> (error + 'a) \<times> heap) \<Rightarrow> (u8 list \<Rightarrow> error + ('a \<times> u8 list)) \<Rightarrow> bool" where
  "runs_as a m f \<longleftrightarrow> (\<forall>h.
     (\<forall>b. b \<noteq> a \<longrightarrow> snd (m h) b = h b) \<and>
     rd_s (snd (m h) a) = rd_s (h a) \<and>
     (case f (unread (h a)) of Inl e \<Rightarrow> fst (m h) = Inl e
      | Inr (v, rest) \<Rightarrow> fst (m h) = Inr v \<and> unread (snd (m h) a) = rest))"

section \<open>Rounding to float64\<close>

text \<open>
  Evaluation of \<open>fl64\<close> on numerals, the two facts the proofs need (integers below
  \<open>2 ^ 53\<close> are exact, and below 2048 the rounding error is at most \<open>2 ^ -43\<close>), and what
  \<open>math.Round\<close> returns near an integer.
\<close>

lemma floor_rat_numeral [simp]:
  "\<lfloor>numeral a / numeral b :: rat\<rfloor> = numeral a div numeral b"
  by (metis floor_divide_of_int_eq of_int_numeral)

lemma floor_rat_neg_numeral [simp]:
  "\<lfloor>- (numeral a / numeral b) :: rat\<rfloor> = - numeral a div numeral b"
  by (metis floor_divide_of_int_eq of_int_numeral of_int_minus minus_divide_left)

lemmas fl_eval = fdiv_def fsub_def fmul_def math_Round_def fl64_def round_at_def ilog2_def
  ilog2_below_def rne_def pow2_def log2floor.simps

lemma log2floor_le: "0 < n \<Longrightarrow> 2 ^ log2floor n \<le> n"
proof (induction n rule: log2floor.induct)
  case (1 n)
  show ?case
  proof (cases "n < 2")
    case True
    with 1 show ?thesis by (simp add: log2floor.simps)
  next
    case False
    then have "0 < n div 2" by simp
    with 1 False have "2 ^ log2floor (n div 2) \<le> n div 2" by simp
    then have "2 * 2 ^ log2floor (n div 2) \<le> n" by simp
    with False show ?thesis by (simp add: log2floor.simps)
  qed
qed

lemma log2floor_less: "n < 2 ^ (log2floor n + 1)"
proof (induction n rule: log2floor.induct)
  case (1 n)
  show ?case
  proof (cases "n < 2")
    case True
    then show ?thesis by (simp add: log2floor.simps)
  next
    case False
    with 1 have "n div 2 < 2 ^ (log2floor (n div 2) + 1)" by simp
    then have "n < 2 * 2 ^ (log2floor (n div 2) + 1)" by simp
    with False show ?thesis by (simp add: log2floor.simps)
  qed
qed

lemma pow2_nonneg: "pow2 (int m) = 2 ^ m"
  by (simp add: pow2_def)

lemma pow2_neg: "pow2 (- int m) = 1 / 2 ^ m"
  by (auto simp: pow2_def)

lemma pow2_pos [simp]: "0 < pow2 k"
  by (simp add: pow2_def)

lemma pow2_powi: "pow2 k = 2 powi k"
  by (simp add: pow2_def power_int_def inverse_eq_divide power_one_over)

lemma pow2_ge0 [simp]: "0 \<le> pow2 k"
  by (simp add: pow2_def)

lemma pow2_neq0 [simp]: "pow2 k \<noteq> 0"
  by (simp add: pow2_def)

lemma pow2_mono: "j \<le> k \<Longrightarrow> pow2 j \<le> pow2 k"
  unfolding pow2_powi by (rule power_int_increasing) simp_all

lemma rne_of_int [simp]: "rne (of_int z) = z"
  by (simp add: rne_def)

lemma rne_error: "\<bar>of_int (rne y) - y\<bar> \<le> 1 / 2"
proof -
  have "of_int \<lfloor>y\<rfloor> \<le> y" "y < of_int \<lfloor>y\<rfloor> + 1"
    by linarith+
  then show ?thesis
    unfolding rne_def by (auto simp: abs_le_iff)
qed

lemma ilog2_le:
  assumes "0 < x"
  shows "pow2 (ilog2 x) \<le> x"
proof (cases "1 \<le> x")
  case True
  then have "0 < nat \<lfloor>x\<rfloor>" by simp
  then have "2 ^ log2floor (nat \<lfloor>x\<rfloor>) \<le> nat \<lfloor>x\<rfloor>"
    by (rule log2floor_le)
  then have "(of_nat (2 ^ log2floor (nat \<lfloor>x\<rfloor>)) :: rat) \<le> of_nat (nat \<lfloor>x\<rfloor>)"
    by (simp only: of_nat_le_iff)
  also have "\<dots> = of_int \<lfloor>x\<rfloor>" using True by simp
  also have "\<dots> \<le> x" by simp
  finally show ?thesis
    using True by (simp add: ilog2_def pow2_nonneg)
next
  case False
  define n where "n = log2floor (nat \<lfloor>1 / x\<rfloor>)"
  have il: "ilog2 x = ilog2_below x (int n)"
    using False by (simp add: ilog2_def n_def)
  show ?thesis
  proof (cases "x = pow2 (- int n)")
    case True
    then have "ilog2_below x (int n) = - int n"
      by (simp add: ilog2_below_def)
    then have "pow2 (ilog2 x) = x"
      unfolding il using True by simp
    then show ?thesis by simp
  next
    case neq: False
    have "nat \<lfloor>1 / x\<rfloor> < 2 ^ (n + 1)"
      unfolding n_def by (rule log2floor_less)
    then have "int (nat \<lfloor>1 / x\<rfloor>) < int (2 ^ (n + 1))"
      by (simp only: of_nat_less_iff)
    moreover have "\<lfloor>1 / x\<rfloor> \<le> int (nat \<lfloor>1 / x\<rfloor>)" by simp
    ultimately have "\<lfloor>1 / x\<rfloor> < 2 ^ (n + 1)"
      by simp
    then have "\<lfloor>1 / x\<rfloor> + 1 \<le> 2 ^ (n + 1)" by simp
    then have "(of_int (\<lfloor>1 / x\<rfloor> + 1) :: rat) \<le> of_int (2 ^ (n + 1))"
      by (simp only: of_int_le_iff)
    moreover have "1 / x < of_int (\<lfloor>1 / x\<rfloor> + 1)" by linarith
    ultimately have "1 / x < 2 ^ (n + 1)" by simp
    then have "1 < 2 ^ (n + 1) * x"
      using assms by (simp add: field_simps)
    then have "1 / 2 ^ (n + 1) \<le> x"
      by (simp add: field_simps)
    moreover have "- int n - 1 = - int (n + 1)" by simp
    ultimately show ?thesis
      using neq by (simp only: il ilog2_below_def if_False pow2_neg)
  qed
qed

lemma fl64_of_nat:
  assumes "n < 2 ^ 53"
  shows "fl64 (of_nat n) = of_nat n"
proof (cases "n = 0")
  case True
  then show ?thesis by (simp add: fl64_def)
next
  case False
  define k where "k = log2floor n"
  from False have "2 ^ k \<le> n" unfolding k_def by (simp add: log2floor_le)
  from \<open>2 ^ k \<le> n\<close> assms have lt: "(2::nat) ^ k < 2 ^ 53" by (rule le_less_trans)
  have "k < 53" by (rule power_less_imp_less_exp [OF _ lt]) simp
  then have k: "k \<le> 52" by simp
  from False have one: "(1::rat) \<le> of_nat n" by simp
  have il: "ilog2 (of_nat n) = int k"
    using one by (simp add: ilog2_def k_def)
  have e: "max (ilog2 (of_nat n) - 52) (- 1074) = - int (52 - k)"
    using k by (simp add: il)
  have p: "pow2 (- int (52 - k)) = 1 / 2 ^ (52 - k)"
    by (rule pow2_neg)
  have "of_nat n / pow2 (- int (52 - k)) = (of_int (int n * 2 ^ (52 - k)) :: rat)"
    by (simp add: p)
  then have "rne (of_nat n / pow2 (- int (52 - k))) = int n * 2 ^ (52 - k)"
    by (simp only: rne_of_int)
  then show ?thesis
    using False by (simp add: fl64_def round_at_def e p)
qed

lemma fl64_error:
  assumes "\<bar>x\<bar> < 2048"
  shows "\<bar>fl64 x - x\<bar> \<le> 1 / 2 ^ 43"
proof (cases "x = 0")
  case True
  then show ?thesis by (simp add: fl64_def)
next
  case False
  define e where "e = max (ilog2 \<bar>x\<bar> - 52) (- 1074)"
  define y where "y = x / pow2 e"
  have "pow2 (ilog2 \<bar>x\<bar>) \<le> \<bar>x\<bar>"
    using False by (intro ilog2_le) simp
  also have "\<bar>x\<bar> < pow2 11" using assms by (simp add: pow2_def)
  finally have "\<not> 11 \<le> ilog2 \<bar>x\<bar>"
    using pow2_mono [of 11 "ilog2 \<bar>x\<bar>"] by auto
  then have "e \<le> - 42" by (simp add: e_def)
  then have "pow2 e \<le> pow2 (- 42)" by (rule pow2_mono)
  then have pe: "pow2 e \<le> 1 / 2 ^ 42" by (simp add: pow2_def)
  have x: "x = y * pow2 e"
    by (simp add: y_def)
  have "fl64 x - x = (of_int (rne y) - y) * pow2 e"
    using False by (simp add: fl64_def round_at_def e_def [symmetric] y_def [symmetric] x [symmetric] algebra_simps)
  then have "\<bar>fl64 x - x\<bar> = \<bar>of_int (rne y) - y\<bar> * pow2 e"
    using pow2_pos [of e] by (simp add: abs_mult abs_of_pos)
  also have "\<dots> \<le> 1 / 2 * pow2 e"
    using pow2_pos [of e] rne_error [of y] by (intro mult_right_mono) simp_all
  also have "\<dots> \<le> 1 / 2 * (1 / 2 ^ 42)"
    using pe by (intro mult_left_mono) simp_all
  finally show ?thesis by simp
qed

lemma math_Round_near:
  assumes "\<bar>w - of_int k\<bar> < 1 / 2"
  shows "math_Round w = of_int k"
proof -
  from assms have b: "w - of_int k < 1 / 2" "- (1 / 2) < w - of_int k"
    by linarith+
  have "\<lfloor>w + 1 / 2\<rfloor> = k"
    using b by (intro floor_unique) linarith+
  moreover have "\<lfloor>- w + 1 / 2\<rfloor> = - k"
    using b by (intro floor_unique) (simp, linarith)+
  ultimately show ?thesis
    by (simp add: math_Round_def)
qed

section \<open>Fixed-width fields\<close>

text \<open>
  The value of the little-endian readers in terms of the bytes, and the sign extension of
  \<open>readTime40\<close>.
\<close>

lemma readU8_Cons [simp]: "readU8 (b # r) = Inr (b, r)"
  by (simp add: readU8_def readExact_def)

lemma readU8_Nil [simp]: "readU8 [] = Inl EOF"
  by (simp add: readU8_def readExact_def)

lemma or_mult_int:
  "0 \<le> x \<Longrightarrow> x < 2 ^ n \<Longrightarrow> x OR 2 ^ n * y = x + 2 ^ n * (y::int)"
  using concat_bit_eq [of n x y]
  by (simp add: concat_bit_def take_bit_int_eq_self push_bit_eq_mult mult.commute)

lemma uint_u8_bounds: "0 \<le> uint (b::u8)" "uint (b::u8) < 256"
  using uint_lt2p [of b] by simp_all

lemma uint_ucast_u8:
  "8 \<le> LENGTH('a::len) \<Longrightarrow> uint (ucast (b::u8) :: 'a word) = uint b"
proof -
  assume "8 \<le> LENGTH('a)"
  then have "(2::int) ^ 8 \<le> 2 ^ LENGTH('a)" by (intro power_increasing) simp_all
  with uint_u8_bounds [of b] have "uint b < 2 ^ LENGTH('a)" by simp
  then show ?thesis
    by (simp add: unsigned_ucast_eq take_bit_int_eq_self)
qed

lemma uint_push_ucast_u8:
  "n + 8 \<le> LENGTH('a::len) \<Longrightarrow> uint (push_bit n (ucast (b::u8) :: 'a word)) = 2 ^ n * uint b"
proof -
  assume n: "n + 8 \<le> LENGTH('a)"
  have "2 ^ n * uint b < 2 ^ n * 2 ^ 8"
    using uint_u8_bounds [of b] by (intro mult_strict_left_mono) simp_all
  also have "\<dots> = 2 ^ (n + 8)" by (simp add: power_add)
  also have "\<dots> \<le> (2::int) ^ LENGTH('a)" using n by (intro power_increasing) simp_all
  finally have "2 ^ n * uint b < 2 ^ LENGTH('a)" .
  moreover from n have "uint (ucast b :: 'a word) = uint b" by (intro uint_ucast_u8) simp
  ultimately show ?thesis
    unfolding unsigned_push_bit_eq
    by (simp add: take_bit_int_eq_self push_bit_eq_mult mult.commute)
qed

lemma or2_int:
  assumes "0 \<le> x0" "x0 < 256"
  shows "x0 OR 2 ^ 8 * x1 = x0 + 256 * (x1::int)"
  using or_mult_int [of x0 8 x1] assms by simp

lemma or3_int:
  assumes "0 \<le> x0" "x0 < 256" "0 \<le> x1" "x1 < 256"
  shows "x0 OR (2 ^ 8 * x1 OR 2 ^ 16 * x2) = x0 + 256 * x1 + 65536 * (x2::int)"
proof -
  have "(x0 + 256 * x1) OR 2 ^ 16 * x2 = (x0 + 256 * x1) + 2 ^ 16 * x2"
    using assms by (intro or_mult_int) simp_all
  then show ?thesis
    unfolding or.assoc [symmetric] or2_int [OF assms(1,2)] by simp
qed

lemma or4_int:
  assumes "0 \<le> x0" "x0 < 256" "0 \<le> x1" "x1 < 256" "0 \<le> x2" "x2 < 256"
  shows "x0 OR (2 ^ 8 * x1 OR (2 ^ 16 * x2 OR 2 ^ 24 * x3))
    = x0 + 256 * x1 + 65536 * x2 + 16777216 * (x3::int)"
proof -
  have "(x0 + 256 * x1 + 65536 * x2) OR 2 ^ 24 * x3 = (x0 + 256 * x1 + 65536 * x2) + 2 ^ 24 * x3"
    using assms by (intro or_mult_int) simp_all
  then show ?thesis
    unfolding or.assoc [symmetric] or.assoc [symmetric, of x0] or3_int [OF assms(1-4), unfolded or.assoc [symmetric]] by simp
qed

lemma or5_int:
  assumes "0 \<le> x0" "x0 < 256" "0 \<le> x1" "x1 < 256" "0 \<le> x2" "x2 < 256"
    "0 \<le> x3" "x3 < 256"
  shows "x0 OR (2 ^ 8 * x1 OR (2 ^ 16 * x2 OR (2 ^ 24 * x3 OR 2 ^ 32 * x4)))
    = x0 + 256 * x1 + 65536 * x2 + 16777216 * x3 + 4294967296 * (x4::int)"
proof -
  have "(x0 + 256 * x1 + 65536 * x2 + 16777216 * x3) OR 2 ^ 32 * x4
      = (x0 + 256 * x1 + 65536 * x2 + 16777216 * x3) + 2 ^ 32 * x4"
    using assms by (intro or_mult_int) simp_all
  then show ?thesis
    unfolding or.assoc [symmetric] or4_int [OF assms(1-6), unfolded or.assoc [symmetric]] by simp
qed

lemma uint_Uint16: "uint (Uint16 [b0, b1]) = uint b0 + 256 * uint b1"
proof -
  have p: "uint (push_bit 8 (ucast b1 :: u16)) = 2 ^ 8 * uint b1"
    by (rule uint_push_ucast_u8) simp
  have c: "uint (ucast b0 :: u16) = uint b0"
    by (rule uint_ucast_u8) simp
  have "uint (Uint16 [b0, b1]) = uint b0 OR 2 ^ 8 * uint b1"
    unfolding Uint16_def unsigned_or_eq nth_Cons_0 One_nat_def nth_Cons_Suc p c ..
  also have "\<dots> = uint b0 + 256 * uint b1"
    by (intro or2_int uint_u8_bounds)
  finally show ?thesis .
qed

lemma uint_Uint32:
  "uint (Uint32 [b0, b1, b2, b3]) =
     uint b0 + 256 * uint b1 + 65536 * uint b2 + 16777216 * uint b3"
proof -
  have p: "uint (push_bit 8 (ucast b1 :: u32)) = 2 ^ 8 * uint b1"
    "uint (push_bit 16 (ucast b2 :: u32)) = 2 ^ 16 * uint b2"
    "uint (push_bit 24 (ucast b3 :: u32)) = 2 ^ 24 * uint b3"
    by (rule uint_push_ucast_u8, simp)+
  have c: "uint (ucast b0 :: u32) = uint b0"
    by (rule uint_ucast_u8) simp
  have "uint (Uint32 [b0, b1, b2, b3]) =
      uint b0 OR (2 ^ 8 * uint b1 OR (2 ^ 16 * uint b2 OR 2 ^ 24 * uint b3))"
    unfolding Uint32_def unsigned_or_eq by (simp add: p c)
  also have "\<dots> = uint b0 + 256 * uint b1 + 65536 * uint b2 + 16777216 * uint b3"
    by (intro or4_int uint_u8_bounds)
  finally show ?thesis .
qed

lemma readU16_Cons [simp]: "readU16 (b0 # b1 # r) = Inr (Uint16 [b0, b1], r)"
  by (simp add: readU16_def readExact_def)

lemma sign_extend_40:
  fixes w :: i64
  assumes "uint w = u" "u < 2 ^ 40"
  shows "sint (signed_drop_bit 24 (push_bit 24 w)) = (if 2 ^ 39 \<le> u then u - 2 ^ 40 else u)"
proof -
  have u0: "0 \<le> u" using assms(1) by (metis uint_ge_0)
  have "u * 2 ^ 24 < 2 ^ 40 * 2 ^ 24"
    using assms(2) by (intro mult_strict_right_mono) simp_all
  then have lt: "u * 2 ^ 24 < 2 ^ 64" by simp
  have uw: "uint (push_bit 24 w) = u * 2 ^ 24"
    unfolding unsigned_push_bit_eq assms(1)
    using u0 lt by (simp add: take_bit_int_eq_self push_bit_eq_mult)
  have s: "sint (push_bit 24 w) = signed_take_bit 63 (u * 2 ^ 24)"
    unfolding sint_uint uw by simp
  show ?thesis
  proof (cases "2 ^ 39 \<le> u")
    case False
    then have "u * 2 ^ 24 < 2 ^ 39 * 2 ^ 24"
      by (intro mult_strict_right_mono) simp_all
    then have "u * 2 ^ 24 < 2 ^ 63" by simp
    with u0 have "signed_take_bit 63 (u * 2 ^ 24) = u * 2 ^ 24"
      by (intro signed_take_bit_int_eq_self) simp_all
    with False show ?thesis
      unfolding sint_signed_drop_bit_eq s by (simp add: drop_bit_eq_div)
  next
    case True
    then have ge: "2 ^ 63 \<le> u * 2 ^ 24" by simp
    have "signed_take_bit 63 (u * 2 ^ 24 - 2 ^ 64) = u * 2 ^ 24 - 2 ^ 64"
      using ge lt by (intro signed_take_bit_int_eq_self) simp_all
    moreover have "signed_take_bit 63 (u * 2 ^ 24 - 2 ^ 64) = signed_take_bit 63 (u * 2 ^ 24)"
      by (simp add: signed_take_bit_eq_iff_take_bit_eq take_bit_eq_mod)
    ultimately have "signed_take_bit 63 (u * 2 ^ 24) = (u - 2 ^ 40) * 2 ^ 24"
      by simp
    with True show ?thesis
      unfolding sint_signed_drop_bit_eq s by (simp add: drop_bit_eq_div)
  qed
qed

lemma le40_bounds: "0 \<le> le40 b0 b1 b2 b3 b4" "le40 b0 b1 b2 b3 b4 < 2 ^ 40"
  using uint_u8_bounds [of b0] uint_u8_bounds [of b1] uint_u8_bounds [of b2]
    uint_u8_bounds [of b3] uint_u8_bounds [of b4]
  by (simp_all add: le40_def)

lemma uint_raw40:
  "uint (ucast b0 OR push_bit 8 (ucast b1) OR push_bit 16 (ucast b2)
      OR push_bit 24 (ucast b3) OR push_bit 32 (ucast b4) :: i64) = le40 b0 b1 b2 b3 (b4::u8)"
proof -
  have p: "uint (push_bit 8 (ucast b1 :: i64)) = 2 ^ 8 * uint b1"
    "uint (push_bit 16 (ucast b2 :: i64)) = 2 ^ 16 * uint b2"
    "uint (push_bit 24 (ucast b3 :: i64)) = 2 ^ 24 * uint b3"
    "uint (push_bit 32 (ucast b4 :: i64)) = 2 ^ 32 * uint b4"
    by (rule uint_push_ucast_u8, simp)+
  have c: "uint (ucast b0 :: i64) = uint b0"
    by (rule uint_ucast_u8) simp
  show ?thesis
    unfolding unsigned_or_eq p c le40_def
    by (intro or5_int uint_u8_bounds)
qed

lemma readTime40_Cons:
  "\<exists>t. readTime40 (b0 # b1 # b2 # b3 # b4 # rest) = Inr (t, rest) \<and>
     sint t = 1767225600000 +
       (if 2 ^ 39 \<le> le40 b0 b1 b2 b3 b4 then le40 b0 b1 b2 b3 b4 - 2 ^ 40
        else le40 b0 b1 b2 b3 b4)"
proof -
  define raw :: i64 where "raw = ucast b0 OR push_bit 8 (ucast b1) OR push_bit 16 (ucast b2)
      OR push_bit 24 (ucast b3) OR push_bit 32 (ucast b4)"
  define ext where "ext = signed_drop_bit 24 (push_bit 24 raw)"
  define u where "u = le40 b0 b1 b2 b3 b4"
  have "uint raw = u" unfolding raw_def u_def by (rule uint_raw40)
  moreover have u: "0 \<le> u" "u < 2 ^ 40" unfolding u_def by (rule le40_bounds)+
  ultimately have ext: "sint ext = (if 2 ^ 39 \<le> u then u - 2 ^ 40 else u)"
    unfolding ext_def by (intro sign_extend_40)
  have r: "readTime40 (b0 # b1 # b2 # b3 # b4 # rest) = Inr (Epoch + ext, rest)"
    by (simp add: readTime40_def readExact_def ext_def raw_def Let_def)
  have e: "sint Epoch = 1767225600000" by (simp add: Epoch_def)
  have "- (2 ^ 39) \<le> sint ext" "sint ext < 2 ^ 39"
    using u by (simp_all add: ext)
  then have "sint (Epoch + ext) = sint Epoch + sint ext"
    unfolding sint_word_ariths e
    by (intro signed_take_bit_int_eq_self) simp_all
  with r show ?thesis by (simp add: e ext u_def)
qed

section \<open>Variable-length integers and intensities\<close>

lemma uint_ucast_up:
  "LENGTH('b::len) \<le> LENGTH('a::len) \<Longrightarrow> uint (ucast (w::'b word) :: 'a word) = uint w"
proof -
  assume "LENGTH('b) \<le> LENGTH('a)"
  then have "(2::int) ^ LENGTH('b) \<le> 2 ^ LENGTH('a)" by (intro power_increasing) simp_all
  with uint_lt2p [of w] have "uint w < 2 ^ LENGTH('a)" by (rule less_le_trans)
  then show ?thesis
    by (simp add: unsigned_ucast_eq take_bit_int_eq_self)
qed

lemma unat_u8_bound: "unat (b::u8) < 256"
  using unsigned_less [of b, where 'a = nat] by simp

lemma float64_of_i64_small:
  assumes "uint v = int n" "n < 2 ^ 53"
  shows "float64_of_i64 v = of_nat n"
proof -
  have "int n < 2 ^ 53" using assms(2) by (metis of_nat_less_iff of_nat_numeral of_nat_power)
  then have "uint v < 2 ^ 63" using assms(1) by simp
  moreover have "- (2 ^ 63) \<le> uint v"
    by (rule order_trans [of _ 0]) simp_all
  ultimately have "sint v = uint v"
    unfolding sint_uint by (intro signed_take_bit_int_eq_self) simp_all
  then show ?thesis
    by (simp add: float64_of_i64_def assms(1) fl64_of_nat [OF assms(2)])
qed

lemma readVarInt_1:
  assumes "marker \<le> 0xFC"
  shows "readVarInt (marker # rest) = Inr (fl64 (of_nat (unat marker) / 100), rest)"
proof -
  have "uint (ucast marker :: i64) = int (unat marker)"
    by (simp add: uint_ucast_up)
  moreover have "unat marker < 2 ^ 53"
    using unat_u8_bound [of marker] by simp
  ultimately have "float64_of_i64 (ucast marker) = of_nat (unat marker)"
    by (rule float64_of_i64_small)
  with assms show ?thesis
    by (simp add: readVarInt_def fdiv_def VarIntScale_def)
qed

lemma readVarInt_FF: "readVarInt (0xFF # rest) = Inr (0, rest)"
  by (simp add: readVarInt_def fdiv_def float64_of_i64_def fl64_def)

lemma readVarInt_2:
  "readVarInt (0xFD # b0 # b1 # rest)
     = Inr (fl64 (of_nat (unat b0 + 256 * unat b1) / 100), rest)"
proof -
  have "uint (ucast (Uint16 [b0, b1]) :: i64) = int (unat b0 + 256 * unat b1)"
    by (simp add: uint_ucast_up uint_Uint16)
  moreover have "unat b0 + 256 * unat b1 < 2 ^ 53"
    using unat_u8_bound [of b0] unat_u8_bound [of b1] by simp
  ultimately have "float64_of_i64 (ucast (Uint16 [b0, b1])) = of_nat (unat b0 + 256 * unat b1)"
    by (rule float64_of_i64_small)
  then show ?thesis
    by (simp add: readVarInt_def fdiv_def VarIntScale_def)
qed

lemma readVarInt_3:
  "readVarInt (0xFE # b0 # b1 # b2 # rest)
     = Inr (fl64 (of_nat (unat b0 + 256 * unat b1 + 65536 * unat b2) / 100), rest)"
proof -
  define val :: u32 where
    "val = ucast b0 OR push_bit 8 (ucast b1) OR push_bit 16 (ucast b2)"
  have p: "uint (push_bit 8 (ucast b1 :: u32)) = 2 ^ 8 * uint b1"
    "uint (push_bit 16 (ucast b2 :: u32)) = 2 ^ 16 * uint b2"
    by (rule uint_push_ucast_u8, simp)+
  have c: "uint (ucast b0 :: u32) = uint b0"
    by (rule uint_ucast_u8) simp
  have "uint val = uint b0 + 256 * uint b1 + 65536 * uint b2"
    unfolding val_def unsigned_or_eq p c by (intro or3_int uint_u8_bounds)
  then have "uint (ucast val :: i64) = int (unat b0 + 256 * unat b1 + 65536 * unat b2)"
    by (simp add: uint_ucast_up)
  moreover have "unat b0 + 256 * unat b1 + 65536 * unat b2 < 2 ^ 53"
    using unat_u8_bound [of b0] unat_u8_bound [of b1] unat_u8_bound [of b2] by simp
  ultimately have "float64_of_i64 (ucast val)
      = of_nat (unat b0 + 256 * unat b1 + 65536 * unat b2)"
    by (rule float64_of_i64_small)
  then show ?thesis
    by (simp add: readVarInt_def readExact_def fdiv_def VarIntScale_def val_def Let_def)
qed

lemma intensity_value:
  assumes "m < 256"
  shows "fdiv (math_Round (fmul (fsub (fdiv (fl64 (of_nat m)) 10) IntensityOffset) 10)) 10
    = fl64 ((of_nat m - 30) / 10)"
proof -
  define r :: rat where "r = of_nat m"
  define a where "a = fl64 (r / 10)"
  define v where "v = fl64 (a - 3)"
  define w where "w = fl64 (v * 10)"
  have r: "0 \<le> r" "r < 256" using assms by (simp_all add: r_def)
  have "\<bar>r / 10\<bar> < 2048" using r by simp
  then have a: "\<bar>a - r / 10\<bar> \<le> 1 / 2 ^ 43"
    unfolding a_def by (rule fl64_error)
  have d: "(1::rat) / 2 ^ 43 \<le> 1 / 1024" by simp
  have "\<bar>a - 3\<bar> < 2048" using r a d by linarith
  then have v: "\<bar>v - (a - 3)\<bar> \<le> 1 / 2 ^ 43"
    unfolding v_def by (rule fl64_error)
  have "\<bar>v * 10\<bar> < 2048" using r a v d by linarith
  then have w: "\<bar>w - v * 10\<bar> \<le> 1 / 2 ^ 43"
    unfolding w_def by (rule fl64_error)
  have "\<bar>w - (r - 30)\<bar> < 1 / 2"
    using a v w d by linarith
  moreover have "r - 30 = of_int (int m - 30)" by (simp add: r_def)
  ultimately have "math_Round w = of_int (int m - 30)"
    by (simp only: math_Round_near)
  moreover have "fl64 (of_nat m) = r"
    unfolding r_def using assms by (intro fl64_of_nat) simp
  ultimately show ?thesis
    by (simp add: fdiv_def fsub_def fmul_def IntensityOffset_def a_def v_def w_def r_def)
qed

section \<open>Readers consume a prefix and fail with end of input\<close>

lemma consumes_mono: "consumes f k \<Longrightarrow> j \<le> k \<Longrightarrow> consumes f j"
  unfolding consumes_def by (meson order_trans)

lemma consumes_return: "consumes (\<lambda>r. Inr (x, r)) 0"
  unfolding consumes_def by auto

lemma consumes_fail: "consumes (\<lambda>r. Inl e) k"
  unfolding consumes_def by auto

lemma consumes_seq:
  assumes f: "consumes f k" and g: "\<And>v. consumes (g v) j"
  shows "consumes (\<lambda>r. case f r of Inl e \<Rightarrow> Inl e | Inr (v, r') \<Rightarrow> g v r') (k + j)"
  unfolding consumes_def
proof (intro allI impI)
  fix r x r2
  assume h: "(case f r of Inl e \<Rightarrow> Inl e | Inr (v, r') \<Rightarrow> g v r') = Inr (x, r2)"
  then obtain v r1 where fr: "f r = Inr (v, r1)" and gr: "g v r1 = Inr (x, r2)"
    by (auto split: sum.splits)
  from f fr obtain p1 where p1: "r = p1 @ r1" "k \<le> length p1" "\<And>s. f (p1 @ s) = Inr (v, s)"
    unfolding consumes_def by blast
  from g [of v] gr obtain p2 where p2: "r1 = p2 @ r2" "j \<le> length p2" "\<And>s. g v (p2 @ s) = Inr (x, s)"
    unfolding consumes_def by blast
  have "\<forall>s. (case f ((p1 @ p2) @ s) of Inl e \<Rightarrow> Inl e | Inr (v, r') \<Rightarrow> g v r') = Inr (x, s)"
    by (simp add: p1(3) p2(3))
  with p1 p2 show "\<exists>p. r = p @ r2 \<and> k + j \<le> length p \<and>
      (\<forall>s. (case f (p @ s) of Inl e \<Rightarrow> Inl e | Inr (v, r') \<Rightarrow> g v r') = Inr (x, s))"
    by (intro exI [of _ "p1 @ p2"]) simp
qed

lemma eofOnly_return: "eofOnly (\<lambda>r. Inr (h r))"
  unfolding eofOnly_def by simp

lemma eofOnly_seq:
  assumes "eofOnly f" "\<And>v. eofOnly (g v)"
  shows "eofOnly (\<lambda>r. case f r of Inl e \<Rightarrow> Inl e | Inr (v, r') \<Rightarrow> g v r')"
  using assms unfolding eofOnly_def by (auto split: sum.splits)

lemma consumes_readExact: "consumes (readExact n) n"
  unfolding consumes_def
proof (intro allI impI)
  fix r v r'
  assume "readExact n r = Inr (v, r')"
  then have "n \<le> length r" "v = take n r" "r' = drop n r"
    by (auto simp: readExact_def split: if_splits)
  then have "r = v @ r'" "n \<le> length v" "\<forall>s. readExact n (v @ s) = Inr (v, s)"
    by (simp_all add: readExact_def)
  then show "\<exists>p. r = p @ r' \<and> n \<le> length p \<and> (\<forall>s. readExact n (p @ s) = Inr (v, s))"
    by blast
qed

lemma eofOnly_readExact: "eofOnly (readExact n)"
  unfolding eofOnly_def eofErr_def by (auto simp: readExact_def split: if_splits)

lemma consumes_seq':
  assumes "consumes f k" "\<And>v. consumes (g v) j" "n \<le> k + j"
  shows "consumes (\<lambda>r. case f r of Inl e \<Rightarrow> Inl e | Inr (v, r') \<Rightarrow> g v r') n"
  using consumes_seq [OF assms(1,2)] assms(3) by (rule consumes_mono)

lemma consumes_if:
  assumes "c \<Longrightarrow> consumes f k" "\<not> c \<Longrightarrow> consumes g k"
  shows "consumes (\<lambda>r. if c then f r else g r) k"
  using assms by (cases c) simp_all

lemma eofOnly_if:
  assumes "c \<Longrightarrow> eofOnly f" "\<not> c \<Longrightarrow> eofOnly g"
  shows "eofOnly (\<lambda>r. if c then f r else g r)"
  using assms by (cases c) simp_all

lemmas consumes_intros = consumes_seq' consumes_if consumes_return consumes_readExact
lemmas eofOnly_intros = eofOnly_seq eofOnly_if eofOnly_return eofOnly_readExact

lemma consumes_readU8: "consumes readU8 1"
  unfolding readU8_def [abs_def] by (rule consumes_intros)+ simp_all

lemma consumes_readU16: "consumes readU16 2"
  unfolding readU16_def [abs_def] by (rule consumes_intros)+ simp_all

lemma consumes_readU32: "consumes readU32 4"
  unfolding readU32_def [abs_def] by (rule consumes_intros)+ simp_all

lemma consumes_readTime40: "consumes readTime40 5"
  unfolding readTime40_def [abs_def] Let_def by (rule consumes_intros)+ simp_all

lemma consumes_readVarInt: "consumes readVarInt 1"
  unfolding readVarInt_def [abs_def] Let_def
  by (rule consumes_intros consumes_readU8 consumes_readU16 | simp)+

lemma consumes_readIntensityAlert: "consumes readIntensityAlert 1"
  unfolding readIntensityAlert_def [abs_def] Let_def
  by (rule consumes_intros consumes_readU8)+ simp_all

lemma eofOnly_readU8: "eofOnly readU8"
  unfolding readU8_def [abs_def] by (rule eofOnly_intros)+

lemma eofOnly_readU16: "eofOnly readU16"
  unfolding readU16_def [abs_def] by (rule eofOnly_intros)+

lemma eofOnly_readU32: "eofOnly readU32"
  unfolding readU32_def [abs_def] by (rule eofOnly_intros)+

lemma eofOnly_readTime40: "eofOnly readTime40"
  unfolding readTime40_def [abs_def] Let_def by (rule eofOnly_intros)+

lemma eofOnly_readVarInt: "eofOnly readVarInt"
  unfolding readVarInt_def [abs_def] Let_def
  by (rule eofOnly_intros eofOnly_readU8 eofOnly_readU16)+

lemma eofOnly_readIntensityAlert: "eofOnly readIntensityAlert"
  unfolding readIntensityAlert_def [abs_def] Let_def
  by (rule eofOnly_intros eofOnly_readU8)+

lemma consumes_readStation: "consumes readStation 7"
proof -
  have "consumes readStation (4 + (1 + (1 + (1 + 0))))"
    unfolding readStation_def [abs_def]
    by (rule consumes_seq consumes_return consumes_readU32 consumes_readVarInt
        consumes_readIntensityAlert | simp only: split_paired_all prod.case)+
  then show ?thesis by simp
qed

lemma eofOnly_readStation: "eofOnly readStation"
  unfolding readStation_def [abs_def]
  by (rule eofOnly_intros eofOnly_readU32 eofOnly_readVarInt eofOnly_readIntensityAlert
      | simp add: split_paired_all)+

lemma consumes_readAreaIntensity: "consumes readAreaIntensity 3"
proof -
  have "consumes readAreaIntensity (2 + (1 + 0))"
    unfolding readAreaIntensity_def [abs_def] Let_def
    by (rule consumes_seq consumes_return consumes_readU16 consumes_readU8)+
  then show ?thesis by simp
qed

lemma eofOnly_readAreaIntensity: "eofOnly readAreaIntensity"
  unfolding readAreaIntensity_def [abs_def] Let_def
  by (rule eofOnly_intros eofOnly_readU16 eofOnly_readU8)+

section \<open>The record loops\<close>


lemma consumes_recordsInOrder:
  assumes "consumes rd k"
  shows "consumes (recordsInOrder rd n) (n * k)"
proof (induction n)
  case 0
  have "consumes (\<lambda>r. Inr ([], r) :: error + ('a list \<times> u8 list)) 0"
    by (rule consumes_return)
  then show ?case by (simp add: recordsInOrder.simps(1) [abs_def])
next
  case (Suc n)
  have "consumes (\<lambda>r. case rd r of Inl e \<Rightarrow> Inl e
     | Inr (x, r') \<Rightarrow>
    (case recordsInOrder rd n r' of Inl e \<Rightarrow> Inl e
     | Inr (xs, r'') \<Rightarrow> Inr (x # xs, r''))) (k + (n * k + 0))"
    by (rule consumes_seq assms Suc consumes_return)+
  then show ?case by (simp add: recordsInOrder.simps(2) [abs_def])
qed

lemma eofOnly_recordsInOrder:
  assumes "eofOnly rd"
  shows "eofOnly (recordsInOrder rd n)"
proof (induction n)
  case 0
  show ?case unfolding recordsInOrder.simps(1) [abs_def] by (rule eofOnly_return)
next
  case (Suc n)
  show ?case unfolding recordsInOrder.simps(2) [abs_def]
    by (rule eofOnly_seq assms Suc eofOnly_return)+
qed

lemma stationLoop_records:
  "i \<le> n \<Longrightarrow> length stations = n \<Longrightarrow>
   stationLoop i n stations r =
     (case recordsInOrder readStation (n - i) r of Inl e \<Rightarrow> Inl e
      | Inr (xs, r') \<Rightarrow> Inr (take i stations @ xs, r'))"
proof (induction i n stations r rule: stationLoop.induct)
  case (1 i n stations r)
  show ?case
  proof (cases "i < n")
    case False
    with 1(2,3) show ?thesis by (simp add: stationLoop.simps)
  next
    case True
    then have n: "n - i = Suc (n - (i + 1))" by simp
    show ?thesis
    proof (cases "readStation r")
      case (Inl e)
      with True show ?thesis by (simp add: stationLoop.simps n)
    next
      case (Inr a)
      obtain st r' where a: "a = (st, r')" by (cases a)
      have "stationLoop (i + 1) n (stations[i := st]) r' =
        (case recordsInOrder readStation (n - (i + 1)) r' of Inl e \<Rightarrow> Inl e
         | Inr (xs, r'') \<Rightarrow> Inr (take (i + 1) (stations[i := st]) @ xs, r''))"
        using 1(1) [OF True Inr a [symmetric]] True 1(3) by simp
      moreover have "take (i + 1) (stations[i := st]) = take i stations @ [st]"
        using True 1(3) by (simp add: take_Suc_conv_app_nth)
      ultimately show ?thesis
        using True Inr a
        by (subst stationLoop.simps) (simp add: n split: sum.splits)
    qed
  qed
qed

lemma areaLoop_records:
  "i \<le> n \<Longrightarrow> length areaInts = n \<Longrightarrow>
   areaLoop i n areaInts r =
     (case recordsInOrder readAreaIntensity (n - i) r of Inl e \<Rightarrow> Inl e
      | Inr (xs, r') \<Rightarrow> Inr (take i areaInts @ xs, r'))"
proof (induction i n areaInts r rule: areaLoop.induct)
  case (1 i n areaInts r)
  show ?case
  proof (cases "i < n")
    case False
    with 1(2,3) show ?thesis by (simp add: areaLoop.simps)
  next
    case True
    then have n: "n - i = Suc (n - (i + 1))" by simp
    show ?thesis
    proof (cases "readAreaIntensity r")
      case (Inl e)
      with True show ?thesis by (simp add: areaLoop.simps n)
    next
      case (Inr a)
      obtain x r' where a: "a = (x, r')" by (cases a)
      have "areaLoop (i + 1) n (areaInts[i := x]) r' =
        (case recordsInOrder readAreaIntensity (n - (i + 1)) r' of Inl e \<Rightarrow> Inl e
         | Inr (xs, r'') \<Rightarrow> Inr (take (i + 1) (areaInts[i := x]) @ xs, r''))"
        using 1(1) [OF True Inr a [symmetric]] True 1(3) by simp
      moreover have "take (i + 1) (areaInts[i := x]) = take i areaInts @ [x]"
        using True 1(3) by (simp add: take_Suc_conv_app_nth)
      ultimately show ?thesis
        using True Inr a
        by (subst areaLoop.simps) (simp add: n split: sum.splits)
    qed
  qed
qed

lemma stationLoop_init:
  "stationLoop 0 n (replicate n z) r = recordsInOrder readStation n r"
  by (simp add: stationLoop_records split: sum.splits)

lemma areaLoop_init:
  "areaLoop 0 n (replicate n z) r = recordsInOrder readAreaIntensity n r"
  by (simp add: areaLoop_records split: sum.splits)

section \<open>The whole document\<close>

lemma Parse_afterVersion:
  "Parse r0 = (case readU8 r0 of Inl err \<Rightarrow> Inl err
     | Inr (version, r1) \<Rightarrow>
         if version \<noteq> SupportedVersion then Inl (UnsupportedVersion version)
         else afterVersion version r1)"
  by (simp add: Parse_def afterVersion_def Let_def stationLoop_init areaLoop_init
      split: sum.splits)

lemma consumes_afterVersion: "consumes (afterVersion v) 11"
proof -
  have "consumes (afterVersion v) (5 + (2 + (2 + (2 + (0 + (0 + 0))))))"
    unfolding afterVersion_def [abs_def]
    by (rule consumes_seq consumes_return consumes_readTime40 consumes_readU16
        consumes_recordsInOrder [of _ 0, simplified] consumes_mono [OF consumes_readStation]
        consumes_mono [OF consumes_readAreaIntensity] le0)+
  then show ?thesis by simp
qed

lemma eofOnly_afterVersion: "eofOnly (afterVersion v)"
  unfolding afterVersion_def [abs_def]
  by (rule eofOnly_seq eofOnly_return eofOnly_readTime40 eofOnly_readU16
      eofOnly_recordsInOrder eofOnly_readStation eofOnly_readAreaIntensity)+

lemma consumes_Parse: "consumes Parse 12"
proof -
  have "consumes Parse (1 + 11)"
    unfolding Parse_afterVersion [abs_def]
    by (rule consumes_seq consumes_readU8 consumes_if consumes_fail consumes_afterVersion)+
  then show ?thesis by simp
qed

lemma Parse_append_rest:
  assumes "Parse b = Inr (d, r)"
  shows "Parse (b @ s) = Inr (d, r @ s)"
proof -
  from consumes_Parse assms obtain p where "b = p @ r" "\<And>s. Parse (p @ s) = Inr (d, s)"
    unfolding consumes_def by blast
  then show ?thesis by simp
qed

lemma Parse_error_kinds:
  assumes "Parse b = Inl e"
  shows "eofErr e \<or> (\<exists>v rest. b = v # rest \<and> v \<noteq> 1 \<and> e = UnsupportedVersion v)"
proof (cases b)
  case Nil
  with assms show ?thesis by (simp add: Parse_afterVersion eofErr_def)
next
  case (Cons v rest)
  show ?thesis
  proof (cases "v = 1")
    case True
    with assms Cons have "afterVersion v rest = Inl e"
      by (simp add: Parse_afterVersion SupportedVersion_def)
    with eofOnly_afterVersion [of v] show ?thesis
      unfolding eofOnly_def by blast
  next
    case False
    with assms Cons show ?thesis
      by (simp add: Parse_afterVersion SupportedVersion_def)
  qed
qed

lemma readExact_short:
  "length r < n \<Longrightarrow> readExact n r = Inl (if r = [] then EOF else ErrUnexpectedEOF)"
  by (simp add: readExact_def)

lemma readU32_Cons [simp]:
  "readU32 (b0 # b1 # b2 # b3 # r) = Inr (Uint32 [b0, b1, b2, b3], r)"
  by (simp add: readU32_def readExact_def)

text \<open>The float64 written \<open>0.1\<close> is \<open>0x3FB999999999999A\<close>.\<close>

lemma fl64_tenth: "fl64 (1 / 10) = 3602879701896397 / 36028797018963968"
  by (simp add: fl_eval)

lemma fl64_half: "fl64 (1 / 2) = 1 / 2"
  by (simp add: fl_eval)

lemma fl64_three_halves: "fl64 (3 / 2) = 3 / 2"
  by (simp add: fl_eval)

lemma fl64_numeral: "numeral k < (2::nat) ^ 53 \<Longrightarrow> fl64 (numeral k) = numeral k"
  using fl64_of_nat [of "numeral k"] by simp

section \<open>Records, truncated input and an example\<close>

lemma alert_bit: "(raw AND 0x80 \<noteq> 0) = bit (raw :: u8) 7"
  using and_exp_eq_0_iff_not_bit [of raw 7] by simp

lemma readIntensityAlert_Cons:
  "readIntensityAlert (raw # rest) =
     Inr ((fl64 ((of_nat (unat (raw AND 0x7F)) - 30) / 10), bit raw 7), rest)"
proof -
  have "fdiv (math_Round (fmul (fsub (fdiv (fl64 (of_nat (unat (raw AND 0x7F)))) 10)
      IntensityOffset) 10)) 10 = fl64 ((of_nat (unat (raw AND 0x7F)) - 30) / 10)"
    by (rule intensity_value) (rule unat_u8_bound)
  then show ?thesis
    by (simp only: readIntensityAlert_def readU8_Cons sum.case prod.case Let_def
        float64_of_u8_def alert_bit)
qed







lemma readAreaIntensity_Cons:
  "readAreaIntensity (c0 # c1 # rawI # rest) =
     Inr (\<lparr>Code = Uint16 [c0, c1],
           Intensity = fl64 ((of_nat (unat rawI) - 30) / 10)\<rparr>, rest)"
proof -
  have "fdiv (math_Round (fmul (fsub (fdiv (fl64 (of_nat (unat rawI))) 10)
      IntensityOffset) 10)) 10 = fl64 ((of_nat (unat rawI) - 30) / 10)"
    by (rule intensity_value) (rule unat_u8_bound)
  then show ?thesis
    by (simp only: readAreaIntensity_def readU16_Cons readU8_Cons sum.case prod.case Let_def
        float64_of_u8_def)
qed

lemma Parse_bad_version:
  "v \<noteq> 1 \<Longrightarrow> Parse (v # rest) = Inl (UnsupportedVersion v)"
  by (simp add: Parse_afterVersion SupportedVersion_def)




lemma Parse_truncated:
  assumes "Parse (p @ q) = Inr (d, [])" "q \<noteq> []"
  shows "\<exists>e. Parse p = Inl e \<and> (e = EOF \<or> e = ErrUnexpectedEOF)"
proof (cases "Parse p")
  case (Inr a)
  obtain d' r' where "a = (d', r')" by (cases a)
  with Inr have "Parse (p @ q) = Inr (d', r' @ q)" by (simp add: Parse_append_rest)
  with assms show ?thesis by simp
next
  case (Inl e)
  from Parse_error_kinds [OF Inl] show ?thesis
  proof
    assume "eofErr e"
    with Inl show ?thesis by (simp add: eofErr_def)
  next
    assume "\<exists>v rest. p = v # rest \<and> v \<noteq> 1 \<and> e = UnsupportedVersion v"
    then obtain v rest where "p = v # rest" "v \<noteq> 1" by blast
    then have "Parse (p @ q) = Inl (UnsupportedVersion v)"
      by (simp add: Parse_bad_version)
    with assms show ?thesis by simp
  qed
qed

lemma fl64_example: "fl64 (99 / 5) = 5573204538870989 / 281474976710656"
  by (simp add: fl_eval)

lemma Parse_example:
  "Parse [1, 0, 0, 0, 0, 0, 1, 0, 1, 0, 0, 0,
          1, 2, 3, 4, 0x32, 0xFD, 150, 0, 0x64, 5, 0, 0x64] =
     Inr (\<lparr>Header = \<lparr>Version = 1, TimestampMs = 1767225600000, StationCount = 1,
                      IntCount = 1, Reserved = 0\<rparr>,
           Stations = [\<lparr>ID = 0x04030201, PGA = 1 / 2, PGV = 3 / 2,
                        Station.Intensity = 7, IsAlert = False\<rparr>],
           AreaIntensities = [\<lparr>Code = 5, Intensity = 7\<rparr>]\<rparr>, [])"
proof -
  have t: "readTime40 [0, 0, 0, 0, 0, 1, 0, 1, 0, 0, 0,
          1, 2, 3, 4, 0x32, 0xFD, 150, 0, 0x64, 5, 0, 0x64]
     = Inr (1767225600000, [1, 0, 1, 0, 0, 0, 1, 2, 3, 4, 0x32, 0xFD, 150, 0, 0x64, 5, 0, 0x64])"
    by (simp add: readTime40_def readExact_def Epoch_def)
  have s: "readStation [1, 2, 3, 4, 0x32, 0xFD, 150, 0, 0x64, 5, 0, 0x64] =
      Inr (\<lparr>ID = 0x04030201, PGA = 1 / 2, PGV = 3 / 2,
                        Station.Intensity = 7, IsAlert = False\<rparr>, [5, 0, 0x64])"
    by (simp add: readStation_def readVarInt_1 readVarInt_2 readIntensityAlert_Cons
        fl64_half fl64_three_halves fl64_numeral Uint32_def)
  have a: "readAreaIntensity [5, 0, 0x64] = Inr (\<lparr>Code = 5, Intensity = 7\<rparr>, [])"
    by (simp add: readAreaIntensity_Cons fl64_numeral Uint16_def)
  show ?thesis
    by (simp add: Parse_afterVersion SupportedVersion_def afterVersion_def t s a Uint16_def)
qed

text \<open>
  A primitive read that needs more bytes than remain fails at once, in the three
  implementations; they differ in what the error tells.
\<close>

lemma short_read_aborts:
  "(length r < n \<longrightarrow> readExact n r = Inl (if r = [] then EOF else ErrUnexpectedEOF)) \<and>
   (length r < 1 \<longrightarrow> readU8 r = Inl EOF) \<and>
   (length r < 2 \<longrightarrow> readU16 r = Inl (if r = [] then EOF else ErrUnexpectedEOF)) \<and>
   (length r < 4 \<longrightarrow> readU32 r = Inl (if r = [] then EOF else ErrUnexpectedEOF)) \<and>
   (length r < 5 \<longrightarrow> readTime40 r = Inl (if r = [] then EOF else ErrUnexpectedEOF)) \<and>
   (length (view p) < offset p + n \<longrightarrow> js_checkBounds n p = Inl (js_UnexpectedEOF n)) \<and>
   (length (view p) < offset p + 1 \<longrightarrow> js_readU8 p = Inl (js_UnexpectedEOF 1)) \<and>
   (length (view p) < offset p + 2 \<longrightarrow> js_readU16 p = Inl (js_UnexpectedEOF 2)) \<and>
   (length (view p) < offset p + 4 \<longrightarrow> js_readU32 p = Inl (js_UnexpectedEOF 4)) \<and>
   (length (view p) < offset p + n \<longrightarrow>
      ts_checkBounds n p = Inl (ts_UnexpectedEOF n (int (length (view p)) - int (offset p))))"
  by (simp add: readExact_short readU8_def readU16_def readU32_def readTime40_def
      js_checkBounds_def js_readU8_def js_readU16_def js_readU32_def ts_checkBounds_def)

section \<open>The parser in memory decodes the unread bytes of its reader\<close>

text \<open>
  Every method of the parser runs as its embedding on the unread bytes does, by the
  structure of the method; the loops by induction on the number of records left.
\<close>

lemma runs_as_return: "runs_as a (return_h v) (\<lambda>r. Inr (v, r))"
  by (simp add: runs_as_def return_h_def)

lemma runs_as_fail: "runs_as a (fail_h e) (\<lambda>r. Inl e)"
  by (simp add: runs_as_def fail_h_def)

lemma runs_asD:
  assumes "runs_as a m f" "m h = (res, h')"
  shows "b \<noteq> a \<Longrightarrow> h' b = h b"
    and "rd_s (h' a) = rd_s (h a)"
    and "f (unread (h a)) = Inl e \<Longrightarrow> res = Inl e"
    and "f (unread (h a)) = Inr (v, rest) \<Longrightarrow> res = Inr v \<and> unread (h' a) = rest"
proof -
  from assms(1) have "(\<forall>b. b \<noteq> a \<longrightarrow> snd (m h) b = h b) \<and>
     rd_s (snd (m h) a) = rd_s (h a) \<and>
     (case f (unread (h a)) of Inl e \<Rightarrow> fst (m h) = Inl e
      | Inr (v, rest) \<Rightarrow> fst (m h) = Inr v \<and> unread (snd (m h) a) = rest)"
    unfolding runs_as_def by (rule spec)
  then have *: "(\<forall>b. b \<noteq> a \<longrightarrow> h' b = h b) \<and> rd_s (h' a) = rd_s (h a) \<and>
     (case f (unread (h a)) of Inl e \<Rightarrow> res = Inl e
      | Inr (v, rest) \<Rightarrow> res = Inr v \<and> unread (h' a) = rest)"
    by (simp add: assms(2) split: sum.splits prod.splits)
  from * show "b \<noteq> a \<Longrightarrow> h' b = h b" by blast
  from * show "rd_s (h' a) = rd_s (h a)" by blast
  from * show "f (unread (h a)) = Inl e \<Longrightarrow> res = Inl e" by simp
  from * show "f (unread (h a)) = Inr (v, rest) \<Longrightarrow> res = Inr v \<and> unread (h' a) = rest"
    by simp
qed

lemma runs_asI:
  assumes "\<And>h res h'. m h = (res, h') \<Longrightarrow>
     (\<forall>b. b \<noteq> a \<longrightarrow> h' b = h b) \<and> rd_s (h' a) = rd_s (h a) \<and>
     (case f (unread (h a)) of Inl e \<Rightarrow> res = Inl e
      | Inr (v, rest) \<Rightarrow> res = Inr v \<and> unread (h' a) = rest)"
  shows "runs_as a m f"
  unfolding runs_as_def
proof
  fix h
  obtain res h' where mh: "m h = (res, h')" by (cases "m h")
  from assms [OF mh] show "(\<forall>b. b \<noteq> a \<longrightarrow> snd (m h) b = h b) \<and>
     rd_s (snd (m h) a) = rd_s (h a) \<and>
     (case f (unread (h a)) of Inl e \<Rightarrow> fst (m h) = Inl e
      | Inr (v, rest) \<Rightarrow> fst (m h) = Inr v \<and> unread (snd (m h) a) = rest)"
    by (simp add: mh split: sum.splits prod.splits)
qed

lemma runs_as_bind:
  assumes m: "runs_as a m f" and k: "\<And>v. runs_as a (k v) (g v)"
  shows "runs_as a (bind_h m k) (\<lambda>r. case f r of Inl e \<Rightarrow> Inl e | Inr (v, r') \<Rightarrow> g v r')"
proof (rule runs_asI)
  fix h res2 h2
  assume b: "bind_h m k h = (res2, h2)"
  obtain res h' where mh: "m h = (res, h')" by (cases "m h")
  note 1 = runs_asD [OF m mh]
  show "(\<forall>b. b \<noteq> a \<longrightarrow> h2 b = h b) \<and> rd_s (h2 a) = rd_s (h a) \<and>
     (case (case f (unread (h a)) of Inl e \<Rightarrow> Inl e | Inr (v, r') \<Rightarrow> g v r') of
        Inl e \<Rightarrow> res2 = Inl e
      | Inr (v, rest) \<Rightarrow> res2 = Inr v \<and> unread (h2 a) = rest)"
  proof (cases "f (unread (h a))")
    case (Inl e)
    then have "res = Inl e" by (rule 1(3))
    with b mh have "res2 = Inl e" "h2 = h'" by (simp_all add: bind_h_def)
    with 1(1,2) Inl show ?thesis by simp
  next
    case (Inr x)
    obtain v rest where x: "x = (v, rest)" by (cases x)
    from 1(4) [OF Inr [unfolded x]] have res: "res = Inr v" and u: "unread (h' a) = rest"
      by simp_all
    from b mh res have kv: "k v h' = (res2, h2)" by (simp add: bind_h_def)
    note 3 = runs_asD [OF k kv]
    have frame: "\<forall>b. b \<noteq> a \<longrightarrow> h2 b = h b" using 1(1) 3(1) by simp
    have same: "rd_s (h2 a) = rd_s (h a)" using 1(2) 3(2) by simp
    have "case g v rest of Inl e \<Rightarrow> res2 = Inl e
      | Inr (w, rest') \<Rightarrow> res2 = Inr w \<and> unread (h2 a) = rest'"
    proof (cases "g v rest")
      case (Inl e)
      with 3(3) [of e] u show ?thesis by simp
    next
      case (Inr y)
      obtain w rest' where y: "y = (w, rest')" by (cases y)
      with 3(4) [of w rest'] Inr u show ?thesis by simp
    qed
    with frame same show ?thesis by (simp add: Inr x)
  qed
qed

lemma runs_as_if:
  assumes "c \<Longrightarrow> runs_as a m1 f1" "\<not> c \<Longrightarrow> runs_as a m2 f2"
  shows "runs_as a (if c then m1 else m2) (\<lambda>r. if c then f1 r else f2 r)"
  using assms by (cases c) simp_all

lemma runs_as_readExact: "runs_as (reader p) (RTSParser_readExact n p) (readExact n)"
proof (rule runs_asI)
  fix h res h'
  assume r: "RTSParser_readExact n p h = (res, h')"
  define rd where "rd = h (reader p)"
  have len: "length (unread rd) = length (rd_s rd) - rd_i rd"
    by (simp add: unread_def)
  show "(\<forall>b. b \<noteq> reader p \<longrightarrow> h' b = h b) \<and> rd_s (h' (reader p)) = rd_s (h (reader p)) \<and>
     (case readExact n (unread (h (reader p))) of Inl e \<Rightarrow> res = Inl e
      | Inr (v, rest) \<Rightarrow> res = Inr v \<and> unread (h' (reader p)) = rest)"
  proof (cases "n \<le> length (rd_s rd) - rd_i rd")
    case True
    with r have "res = Inr (take n (unread rd))" "h' = h(reader p := rd\<lparr>rd_i := rd_i rd + n\<rparr>)"
      by (simp_all add: RTSParser_readExact_def io_ReadFull_def rd_def [symmetric] unread_def)
    moreover have "readExact n (unread rd) = Inr (take n (unread rd), drop n (unread rd))"
      using True by (simp add: readExact_def len)
    moreover have "drop n (unread rd) = drop (rd_i rd + n) (rd_s rd)"
      by (simp add: unread_def add.commute)
    ultimately show ?thesis
      by (simp add: rd_def [symmetric] unread_def)
  next
    case False
    show ?thesis
    proof (cases "length (rd_s rd) \<le> rd_i rd")
      case True
      with False r have "res = Inl EOF" "h' = h"
        by (simp_all add: RTSParser_readExact_def io_ReadFull_def rd_def [symmetric])
      moreover have "readExact n (unread rd) = Inl EOF"
        using False True by (simp add: readExact_def unread_def)
      ultimately show ?thesis by (simp add: rd_def [symmetric])
    next
      case ne: False
      with False r have "res = Inl ErrUnexpectedEOF"
        "h' = h(reader p := rd\<lparr>rd_i := length (rd_s rd)\<rparr>)"
        by (simp_all add: RTSParser_readExact_def io_ReadFull_def rd_def [symmetric])
      moreover have "readExact n (unread rd) = Inl ErrUnexpectedEOF"
        using False ne by (simp add: readExact_def unread_def)
      ultimately show ?thesis by (simp add: rd_def [symmetric])
    qed
  qed
qed

lemmas runs_as_intros = runs_as_bind runs_as_if runs_as_return runs_as_fail runs_as_readExact

lemma runs_as_readU8: "runs_as (reader p) (RTSParser_readU8 p) readU8"
  unfolding RTSParser_readU8_def readU8_def [abs_def] by (rule runs_as_intros)+

lemma runs_as_readU16: "runs_as (reader p) (RTSParser_readU16 p) readU16"
  unfolding RTSParser_readU16_def readU16_def [abs_def] by (rule runs_as_intros)+

lemma runs_as_readU32: "runs_as (reader p) (RTSParser_readU32 p) readU32"
  unfolding RTSParser_readU32_def readU32_def [abs_def] by (rule runs_as_intros)+

lemma runs_as_readTime40: "runs_as (reader p) (RTSParser_readTime40 p) readTime40"
  unfolding RTSParser_readTime40_def readTime40_def [abs_def] Let_def
  by (rule runs_as_intros)+

lemma runs_as_readVarInt: "runs_as (reader p) (RTSParser_readVarInt p) readVarInt"
  unfolding RTSParser_readVarInt_def readVarInt_def [abs_def] Let_def
  by (rule runs_as_intros runs_as_readU8 runs_as_readU16)+

lemma runs_as_readIntensityAlert:
  "runs_as (reader p) (RTSParser_readIntensityAlert p) readIntensityAlert"
  unfolding RTSParser_readIntensityAlert_def readIntensityAlert_def [abs_def] Let_def
  by (rule runs_as_intros runs_as_readU8)+

lemma runs_as_readStation: "runs_as (reader p) (RTSParser_readStation p) readStation"
  unfolding RTSParser_readStation_def readStation_def [abs_def]
  apply (rule runs_as_bind, rule runs_as_readU32)
  apply (rule runs_as_bind, rule runs_as_readVarInt)
  apply (rule runs_as_bind, rule runs_as_readVarInt)
  apply (rule runs_as_bind, rule runs_as_readIntensityAlert)
  subgoal for id' pga pgv ia
    by (cases ia) (simp add: runs_as_return)
  done

lemma runs_as_readAreaIntensity:
  "runs_as (reader p) (RTSParser_readAreaIntensity p) readAreaIntensity"
  unfolding RTSParser_readAreaIntensity_def readAreaIntensity_def [abs_def] Let_def
  by (rule runs_as_intros runs_as_readU16 runs_as_readU8)+

lemma runs_as_stationLoop:
  "runs_as (reader p) (RTSParser_stationLoop i n stations p) (stationLoop i n stations)"
proof (induction "n - i" arbitrary: i stations)
  case 0
  then have "\<not> i < n" by simp
  then have "RTSParser_stationLoop i n stations p = return_h stations"
    "stationLoop i n stations = (\<lambda>r. Inr (stations, r))"
    by (auto simp: RTSParser_stationLoop.simps stationLoop.simps return_h_def)
  then show ?case by (simp only: runs_as_return)
next
  case (Suc k)
  then have lt: "i < n" and k: "k = n - (i + 1)" by simp_all
  have h: "RTSParser_stationLoop i n stations p =
      bind_h (RTSParser_readStation p)
        (\<lambda>st. RTSParser_stationLoop (i + 1) n (stations[i := st]) p)"
    using lt by (rule_tac ext)
      (simp add: RTSParser_stationLoop.simps bind_h_def split: prod.splits sum.splits)
  have l: "stationLoop i n stations =
      (\<lambda>r. case readStation r of Inl e \<Rightarrow> Inl e
        | Inr (st, r') \<Rightarrow> stationLoop (i + 1) n (stations[i := st]) r')"
    using lt by (rule_tac ext) (simp add: stationLoop.simps)
  show ?case
    unfolding h l by (rule runs_as_bind runs_as_readStation Suc(1) k)+
qed

lemma runs_as_areaLoop:
  "runs_as (reader p) (RTSParser_areaLoop i n areaInts p) (areaLoop i n areaInts)"
proof (induction "n - i" arbitrary: i areaInts)
  case 0
  then have "\<not> i < n" by simp
  then have "RTSParser_areaLoop i n areaInts p = return_h areaInts"
    "areaLoop i n areaInts = (\<lambda>r. Inr (areaInts, r))"
    by (auto simp: RTSParser_areaLoop.simps areaLoop.simps return_h_def)
  then show ?case by (simp only: runs_as_return)
next
  case (Suc k)
  then have lt: "i < n" and k: "k = n - (i + 1)" by simp_all
  have h: "RTSParser_areaLoop i n areaInts p =
      bind_h (RTSParser_readAreaIntensity p)
        (\<lambda>x. RTSParser_areaLoop (i + 1) n (areaInts[i := x]) p)"
    using lt by (rule_tac ext)
      (simp add: RTSParser_areaLoop.simps bind_h_def split: prod.splits sum.splits)
  have l: "areaLoop i n areaInts =
      (\<lambda>r. case readAreaIntensity r of Inl e \<Rightarrow> Inl e
        | Inr (x, r') \<Rightarrow> areaLoop (i + 1) n (areaInts[i := x]) r')"
    using lt by (rule_tac ext) (simp add: areaLoop.simps)
  show ?case
    unfolding h l by (rule runs_as_bind runs_as_readAreaIntensity Suc(1) k)+
qed

lemma runs_as_Parse: "runs_as (reader p) (RTSParser_Parse p) Parse"
  unfolding RTSParser_Parse_def Parse_def [abs_def] Let_def
  by (rule runs_as_intros runs_as_readU8 runs_as_readTime40 runs_as_readU16
      runs_as_stationLoop runs_as_areaLoop)+

lemma Parse_result:
  "fst (RTSParser_Parse p h) = map_sum id fst (Parse (unread (h (reader p))))"
  using runs_as_Parse [of p, unfolded runs_as_def, THEN spec, of h]
  by (auto split: sum.splits)

lemma Parse_frame: "a \<noteq> reader p \<Longrightarrow> snd (RTSParser_Parse p h) a = h a"
  using runs_as_Parse [of p, unfolded runs_as_def, THEN spec, of h] by blast


lemma Parse_rest:
  assumes "Parse (unread (h (reader p))) = Inr (d, rest)"
  shows "unread (snd (RTSParser_Parse p h) (reader p)) = rest"
proof -
  obtain res h' where r: "RTSParser_Parse p h = (res, h')" by (cases "RTSParser_Parse p h")
  from runs_asD(4) [OF runs_as_Parse r assms] show ?thesis by (simp add: r)
qed

lemma Parse_bytes: "rd_s (snd (RTSParser_Parse p h) a) = rd_s (h a)"
proof (cases "a = reader p")
  case True
  obtain res h' where r: "RTSParser_Parse p h = (res, h')" by (cases "RTSParser_Parse p h")
  from runs_asD(2) [OF runs_as_Parse r] True show ?thesis by (simp add: r)
next
  case False
  then show ?thesis by (simp add: Parse_frame)
qed

lemma Parse_shared_reader:
  "fst (RTSParser_Parse (NewRTSParser 0)
     (snd (RTSParser_Parse (NewRTSParser 0)
        (\<lambda>a. bytes_NewReader [1, 0, 0, 0, 0, 0, 1, 0, 1, 0, 0, 0,
          1, 2, 3, 4, 0x32, 0xFD, 150, 0, 0x64, 5, 0, 0x64])))) = Inl EOF"
proof -
  let ?h = "\<lambda>a :: nat. bytes_NewReader [1, 0, 0, 0, 0, 0, 1, 0, 1, 0, 0, 0,
          1, 2, 3, 4, 0x32, 0xFD, 150, 0, 0x64, 5, 0, 0x64]"
  let ?p = "NewRTSParser 0"
  have "unread (snd (RTSParser_Parse ?p ?h) (reader ?p)) = []"
    by (rule Parse_rest) (simp add: unread_def bytes_NewReader_def Parse_example)
  then show ?thesis
    by (simp add: Parse_result Parse_def readU8_def readExact_def)
qed

section \<open>The claims\<close>



text \<open>
  Claim C2. \<open>readVarInt\<close> decodes by marker: a marker from \<open>0x00\<close> to \<open>0xFC\<close> is the
  value itself; \<open>0xFD\<close> is followed by a little-endian u16 and \<open>0xFE\<close> by a little-endian
  u24; \<open>0xFF\<close> gives 0 and consumes nothing more. The result is the value divided by 100
  in float64, that is the float64 nearest to the exact quotient. So \<open>0xFD\<close> with u16 150
  gives 1.50, the marker 50 gives 0.50, and \<open>0xFE\<close> with u24 1000000 gives 10000.
\<close>

theorem readVarInt_decodes:
  "(marker \<le> 0xFC \<longrightarrow>
      readVarInt (marker # rest) = Inr (fl64 (of_nat (unat marker) / 100), rest)) \<and>
   readVarInt (0xFD # b0 # b1 # rest)
     = Inr (fl64 (of_nat (unat b0 + 256 * unat b1) / 100), rest) \<and>
   readVarInt (0xFE # b0 # b1 # b2 # rest)
     = Inr (fl64 (of_nat (unat b0 + 256 * unat b1 + 65536 * unat b2) / 100), rest) \<and>
   readVarInt (0xFF # rest) = Inr (0, rest) \<and>
   readVarInt [0xFD, 150, 0] = Inr (3 / 2, []) \<and>
   readVarInt [0x32] = Inr (1 / 2, []) \<and>
   readVarInt [0xFE, 0x40, 0x42, 0x0F] = Inr (10000, [])"
proof -
  have a: "marker \<le> 0xFC \<longrightarrow>
      readVarInt (marker # rest) = Inr (fl64 (of_nat (unat marker) / 100), rest)"
    by (simp add: readVarInt_1)
  have b: "readVarInt [0xFD, 150, 0] = Inr (3 / 2, [])"
    by (simp add: readVarInt_2 fl64_three_halves)
  have c: "readVarInt [0x32] = Inr (1 / 2, [])"
    by (simp add: readVarInt_1 fl64_half)
  have d: "readVarInt [0xFE, 0x40, 0x42, 0x0F] = Inr (10000, [])"
    by (simp add: readVarInt_3 fl64_numeral)
  show ?thesis
    by (intro conjI a b c d readVarInt_2 readVarInt_3 readVarInt_FF)
qed

theorem readVarInt_decodes_witness:
  "(0x32 :: u8) \<le> 0xFC \<and> readVarInt (0x32 # [7, 9]) = Inr (1 / 2, [7, 9])"
  using readVarInt_decodes [of "0x32" "[7, 9]"] by (simp add: fl64_half)

text \<open>
  Claim C3. \<open>readTime40\<close> reads exactly 5 bytes (with fewer it fails and with more it
  leaves the rest), combines them little-endian into a 40-bit number, subtracts \<open>2 ^ 40\<close>
  when bit 39 is set, and adds the epoch 1767225600000, exactly. Five zero bytes decode to
  1767225600000 and five \<open>0xFF\<close> bytes to 1767225599999.
\<close>

theorem readTime40_decodes:
  "(\<exists>t. readTime40 (b0 # b1 # b2 # b3 # b4 # rest) = Inr (t, rest) \<and>
     sint t = 1767225600000 +
       (let u = uint b0 + 2 ^ 8 * uint b1 + 2 ^ 16 * uint b2 + 2 ^ 24 * uint b3
                  + 2 ^ 32 * uint b4
        in if 2 ^ 39 \<le> u then u - 2 ^ 40 else u)) \<and>
   (length r < 5 \<longrightarrow> readTime40 r = Inl (if r = [] then EOF else ErrUnexpectedEOF)) \<and>
   readTime40 [0, 0, 0, 0, 0] = Inr (1767225600000, []) \<and>
   readTime40 [0xFF, 0xFF, 0xFF, 0xFF, 0xFF] = Inr (1767225599999, [])"
proof -
  have eq: "le40 b0 b1 b2 b3 b4 = uint b0 + 2 ^ 8 * uint b1 + 2 ^ 16 * uint b2
      + 2 ^ 24 * uint b3 + 2 ^ 32 * uint b4"
    by (simp add: le40_def)
  have "\<exists>t. readTime40 (b0 # b1 # b2 # b3 # b4 # rest) = Inr (t, rest) \<and>
     sint t = 1767225600000 +
       (let u = uint b0 + 2 ^ 8 * uint b1 + 2 ^ 16 * uint b2 + 2 ^ 24 * uint b3
                  + 2 ^ 32 * uint b4
        in if 2 ^ 39 \<le> u then u - 2 ^ 40 else u)"
    unfolding Let_def using readTime40_Cons [of b0 b1 b2 b3 b4 rest, unfolded eq] .
  moreover have "length r < 5 \<longrightarrow>
      readTime40 r = Inl (if r = [] then EOF else ErrUnexpectedEOF)"
    by (simp add: readTime40_def readExact_short)
  moreover have "readTime40 [0, 0, 0, 0, 0] = Inr (1767225600000, [])"
    by (simp add: readTime40_def readExact_def Epoch_def)
  moreover have "readTime40 [0xFF, 0xFF, 0xFF, 0xFF, 0xFF] = Inr (1767225599999, [])"
    by (simp add: readTime40_def readExact_def Epoch_def)
  ultimately show ?thesis by blast
qed

theorem readTime40_decodes_witness:
  "length [1 :: u8, 2] < 5 \<and> readTime40 [1, 2] = Inl ErrUnexpectedEOF"
  using readTime40_decodes [of 0 0 0 0 0 "[]" "[1, 2]"] by simp

text \<open>
  Claim C4. \<open>readIntensityAlert\<close> reads exactly 1 byte. The intensity is the float64
  nearest to the one-decimal number \<open>(raw AND 0x7F) / 10 - 3\<close>, which is what rounding
  \<open>(raw AND 0x7F) / 10.0 - 3.0\<close> to one decimal place yields, and \<open>isAlert\<close> is bit 7 of the
  byte. The byte \<open>0x64\<close> gives 7.0 without alert, \<open>0xE4\<close> gives 7.0 with alert.
\<close>

theorem readIntensityAlert_decodes:
  "readIntensityAlert (raw # rest) =
     Inr ((fl64 ((of_nat (unat (raw AND 0x7F)) - 30) / 10), bit raw 7), rest) \<and>
   readIntensityAlert [] = Inl EOF \<and>
   readIntensityAlert [0x64] = Inr ((7, False), []) \<and>
   readIntensityAlert [0xE4] = Inr ((7, True), [])"
proof -
  have "readIntensityAlert [0x64] = Inr ((7, False), [])"
    by (simp add: readIntensityAlert_Cons fl64_numeral)
  moreover have "readIntensityAlert [0xE4] = Inr ((7, True), [])"
    by (simp add: readIntensityAlert_Cons fl64_numeral)
  moreover have "readIntensityAlert [] = Inl EOF"
    by (simp add: readIntensityAlert_def)
  ultimately show ?thesis
    by (simp only: readIntensityAlert_Cons simp_thms)
qed

text \<open>
  Claim C5 says that the area intensity depends on the low 7 bits of the raw byte only.
  The code does not mask the byte: \<open>0x64\<close> and \<open>0xE4\<close> agree on bits 0 to 6 and decode to
  7.0 and to 19.8 (the float64 nearest to it).
\<close>

theorem area_intensity_bit7_counterexample:
  "readAreaIntensity [5, 0, 0x64] = Inr (\<lparr>Code = 5, Intensity = 7\<rparr>, []) \<and>
   readAreaIntensity [5, 0, 0xE4]
     = Inr (\<lparr>Code = 5, Intensity = 5573204538870989 / 281474976710656\<rparr>, []) \<and>
   (0x64 :: u8) AND 0x7F = 0xE4 AND 0x7F \<and>
   (7 :: float64) \<noteq> 5573204538870989 / 281474976710656"
  by (simp add: readAreaIntensity_Cons fl64_numeral fl64_example Uint16_def)

text \<open>
  Claim C5, amended. The area intensity is computed from all 8 bits of the raw byte: it is
  the float64 nearest to the one-decimal number \<open>rawI / 10 - 3\<close>. Bit 7 is not masked and
  not validated: every byte decodes.
\<close>

theorem readAreaIntensity_full_byte:
  "readAreaIntensity (c0 # c1 # rawI # rest) =
     Inr (\<lparr>Code = Uint16 [c0, c1],
           Intensity = fl64 ((of_nat (unat rawI) - 30) / 10)\<rparr>, rest)"
  by (rule readAreaIntensity_Cons)

text \<open>
  Claim C6. A first byte other than 1 makes \<open>Parse\<close> fail with the error that carries
  that version number, whatever follows the byte, even nothing: no header field is read
  before. With first byte 1, \<open>Parse\<close> never reports an unsupported version.
\<close>

theorem Parse_version_check:
  "(v \<noteq> 1 \<longrightarrow> Parse (v # rest) = Inl (UnsupportedVersion v)) \<and>
   (\<forall>v'. Parse (1 # rest) \<noteq> Inl (UnsupportedVersion v'))"
proof (intro conjI impI allI)
  assume "v \<noteq> 1"
  then show "Parse (v # rest) = Inl (UnsupportedVersion v)"
    by (rule Parse_bad_version)
next
  fix v'
  show "Parse (1 # rest) \<noteq> Inl (UnsupportedVersion v')"
  proof
    assume "Parse (1 # rest) = Inl (UnsupportedVersion v')"
    from Parse_error_kinds [OF this] show False
      by (simp add: eofErr_def)
  qed
qed

theorem Parse_version_check_witness:
  "(2 :: u8) \<noteq> 1 \<and>
   Parse (2 # [0, 0, 0, 0, 0, 0, 0, 0, 0, 0, 0]) = Inl (UnsupportedVersion 2) \<and>
   Parse [2] = Inl (UnsupportedVersion 2)"
  using Parse_version_check [of 2 "[0, 0, 0, 0, 0, 0, 0, 0, 0, 0, 0]"]
    Parse_version_check [of 2 "[]"]
  by simp

text \<open>
  Claim C7. The end-of-input error is to report the number of bytes required and the number
  of bytes available. In the buffer \<open>[1, 0xAA, 0xBB]\<close> the timestamp needs 5 bytes and 2
  remain; in \<open>[1, 0xAA]\<close> one remains. rts.go returns \<open>io.ErrUnexpectedEOF\<close> for both, a
  value that carries no number; rts.js reports the 5 bytes required and not the number left;
  rts.ts reports both, 5 and 2, then 5 and 1.
\<close>

theorem eof_error_omits_byte_counts:
  "Parse [1, 0xAA, 0xBB] = Inl ErrUnexpectedEOF \<and>
   Parse [1, 0xAA] = Inl ErrUnexpectedEOF \<and>
   readExact 5 [0xAA, 0xBB] = Inl ErrUnexpectedEOF \<and>
   readExact 2 [0xAA] = Inl ErrUnexpectedEOF \<and>
   js_checkBounds 5 \<lparr>view = [1, 0xAA, 0xBB], offset = 1\<rparr> = Inl (js_UnexpectedEOF 5) \<and>
   js_checkBounds 5 \<lparr>view = [1, 0xAA], offset = 1\<rparr> = Inl (js_UnexpectedEOF 5) \<and>
   ts_checkBounds 5 \<lparr>view = [1, 0xAA, 0xBB], offset = 1\<rparr> = Inl (ts_UnexpectedEOF 5 2) \<and>
   ts_checkBounds 5 \<lparr>view = [1, 0xAA], offset = 1\<rparr> = Inl (ts_UnexpectedEOF 5 1)"
  by (simp add: readExact_def Parse_def readU8_def readTime40_def
      SupportedVersion_def js_checkBounds_def ts_checkBounds_def)

text \<open>
  Claim C8. The version byte followed by 2 bytes of the timestamp fails with an end-of-input
  error. A result of \<open>Parse\<close> is an error or a document, never an error with a part of a
  document (every error return of the source is \<open>return nil, err\<close>); and a buffer that
  decodes completely, cut short anywhere, gives an end-of-input error.
\<close>

theorem Parse_all_or_nothing:
  "Parse [1, a, b] = Inl ErrUnexpectedEOF \<and>
   (Parse (p @ q) = Inr (d, []) \<and> q \<noteq> [] \<longrightarrow>
      (\<exists>e. Parse p = Inl e \<and> (e = EOF \<or> e = ErrUnexpectedEOF)))"
proof (intro conjI impI)
  show "Parse [1, a, b] = Inl ErrUnexpectedEOF"
    by (simp add: Parse_def readTime40_def readExact_def SupportedVersion_def)
next
  assume "Parse (p @ q) = Inr (d, []) \<and> q \<noteq> []"
  then show "\<exists>e. Parse p = Inl e \<and> (e = EOF \<or> e = ErrUnexpectedEOF)"
    using Parse_truncated [of p q d] by blast
qed

theorem Parse_all_or_nothing_witness:
  "Parse ([1, 0, 0, 0, 0, 0, 1, 0, 1, 0, 0, 0,
          1, 2, 3, 4, 0x32, 0xFD, 150, 0, 0x64, 5, 0] @ [0x64]) =
     Inr (\<lparr>Header = \<lparr>Version = 1, TimestampMs = 1767225600000, StationCount = 1,
                      IntCount = 1, Reserved = 0\<rparr>,
           Stations = [\<lparr>ID = 0x04030201, PGA = 1 / 2, PGV = 3 / 2,
                        Station.Intensity = 7, IsAlert = False\<rparr>],
           AreaIntensities = [\<lparr>Code = 5, Intensity = 7\<rparr>]\<rparr>, []) \<and>
   [0x64 :: u8] \<noteq> [] \<and>
   (\<exists>e. Parse [1, 0, 0, 0, 0, 0, 1, 0, 1, 0, 0, 0,
          1, 2, 3, 4, 0x32, 0xFD, 150, 0, 0x64, 5, 0] = Inl e \<and>
        (e = EOF \<or> e = ErrUnexpectedEOF))"
  using Parse_all_or_nothing [of 0 0
      "[1, 0, 0, 0, 0, 0, 1, 0, 1, 0, 0, 0, 1, 2, 3, 4, 0x32, 0xFD, 150, 0, 0x64, 5, 0]"
      "[0x64]"
      "\<lparr>Header = \<lparr>Version = 1, TimestampMs = 1767225600000, StationCount = 1,
                      IntCount = 1, Reserved = 0\<rparr>,
           Stations = [\<lparr>ID = 0x04030201, PGA = 1 / 2, PGV = 3 / 2,
                        Station.Intensity = 7, IsAlert = False\<rparr>],
           AreaIntensities = [\<lparr>Code = 5, Intensity = 7\<rparr>]\<rparr>"]
    Parse_example
  by simp

text \<open>
  Claim C9. Two parsers whose readers are two objects with equal unread bytes return the
  same outcome, a document or an error: the one that \<open>Parse\<close> gives on these bytes, whatever
  else the memory holds, and also when the second parser runs in the memory that the first
  has left. \<open>Parse\<close> moves the read position of its own reader and changes nothing else; the
  bytes of every buffer stay as they are.
\<close>

theorem Parse_twice_same_outcome:
  assumes "reader p1 \<noteq> reader p2"
    and "unread (h (reader p1)) = b" and "unread (h (reader p2)) = b"
  shows "fst (RTSParser_Parse p1 h) = map_sum id fst (Parse b) \<and>
         fst (RTSParser_Parse p2 h) = map_sum id fst (Parse b) \<and>
         fst (RTSParser_Parse p2 (snd (RTSParser_Parse p1 h))) = fst (RTSParser_Parse p1 h) \<and>
         fst (RTSParser_Parse p1 (snd (RTSParser_Parse p2 h))) = fst (RTSParser_Parse p2 h) \<and>
         (\<forall>a. rd_s (snd (RTSParser_Parse p1 h) a) = rd_s (h a))"
proof -
  have 1: "snd (RTSParser_Parse p1 h) (reader p2) = h (reader p2)"
    using assms(1) by (simp add: Parse_frame)
  have 2: "snd (RTSParser_Parse p2 h) (reader p1) = h (reader p1)"
    using assms(1) by (simp add: Parse_frame)
  show ?thesis
    by (simp add: Parse_result 1 2 assms(2,3) Parse_bytes)
qed

theorem Parse_twice_same_outcome_witness:
  "reader (NewRTSParser 0) \<noteq> reader (NewRTSParser 1) \<and>
   unread (bytes_NewReader [1, 0, 0, 0, 0, 0, 1, 0, 1, 0, 0, 0,
          1, 2, 3, 4, 0x32, 0xFD, 150, 0, 0x64, 5, 0, 0x64]) =
     [1, 0, 0, 0, 0, 0, 1, 0, 1, 0, 0, 0,
          1, 2, 3, 4, 0x32, 0xFD, 150, 0, 0x64, 5, 0, 0x64] \<and>
   fst (RTSParser_Parse (NewRTSParser 0)
     (\<lambda>a. bytes_NewReader [1, 0, 0, 0, 0, 0, 1, 0, 1, 0, 0, 0,
          1, 2, 3, 4, 0x32, 0xFD, 150, 0, 0x64, 5, 0, 0x64])) =
     Inr \<lparr>Header = \<lparr>Version = 1, TimestampMs = 1767225600000, StationCount = 1,
                      IntCount = 1, Reserved = 0\<rparr>,
           Stations = [\<lparr>ID = 0x04030201, PGA = 1 / 2, PGV = 3 / 2,
                        Station.Intensity = 7, IsAlert = False\<rparr>],
           AreaIntensities = [\<lparr>Code = 5, Intensity = 7\<rparr>]\<rparr> \<and>
   fst (RTSParser_Parse (NewRTSParser 1)
     (snd (RTSParser_Parse (NewRTSParser 0)
        (\<lambda>a. bytes_NewReader [1, 0, 0, 0, 0, 0, 1, 0, 1, 0, 0, 0,
          1, 2, 3, 4, 0x32, 0xFD, 150, 0, 0x64, 5, 0, 0x64])))) =
     Inr \<lparr>Header = \<lparr>Version = 1, TimestampMs = 1767225600000, StationCount = 1,
                      IntCount = 1, Reserved = 0\<rparr>,
           Stations = [\<lparr>ID = 0x04030201, PGA = 1 / 2, PGV = 3 / 2,
                        Station.Intensity = 7, IsAlert = False\<rparr>],
           AreaIntensities = [\<lparr>Code = 5, Intensity = 7\<rparr>]\<rparr>"
  using Parse_twice_same_outcome [of "NewRTSParser 0" "NewRTSParser 1"
      "\<lambda>a. bytes_NewReader [1, 0, 0, 0, 0, 0, 1, 0, 1, 0, 0, 0,
          1, 2, 3, 4, 0x32, 0xFD, 150, 0, 0x64, 5, 0, 0x64]"
      "[1, 0, 0, 0, 0, 0, 1, 0, 1, 0, 0, 0,
          1, 2, 3, 4, 0x32, 0xFD, 150, 0, 0x64, 5, 0, 0x64]"]
  by (simp add: NewRTSParser_def unread_def bytes_NewReader_def Parse_example)

text \<open>
  Claim C10. When \<open>Parse\<close> succeeds on a buffer, it succeeds on the buffer followed by any
  extra bytes, with the same document; the extra bytes are left unread in the reader.
\<close>

theorem Parse_ignores_trailing:
  "Parse b = Inr (d, r) \<Longrightarrow> Parse (b @ s) = Inr (d, r @ s)"
  by (rule Parse_append_rest)

theorem Parse_ignores_trailing_witness:
  "Parse [1, 0, 0, 0, 0, 0, 1, 0, 1, 0, 0, 0,
          1, 2, 3, 4, 0x32, 0xFD, 150, 0, 0x64, 5, 0, 0x64] =
     Inr (\<lparr>Header = \<lparr>Version = 1, TimestampMs = 1767225600000, StationCount = 1,
                      IntCount = 1, Reserved = 0\<rparr>,
           Stations = [\<lparr>ID = 0x04030201, PGA = 1 / 2, PGV = 3 / 2,
                        Station.Intensity = 7, IsAlert = False\<rparr>],
           AreaIntensities = [\<lparr>Code = 5, Intensity = 7\<rparr>]\<rparr>, []) \<and>
   Parse ([1, 0, 0, 0, 0, 0, 1, 0, 1, 0, 0, 0,
          1, 2, 3, 4, 0x32, 0xFD, 150, 0, 0x64, 5, 0, 0x64] @ [0xDE, 0xAD]) =
     Inr (\<lparr>Header = \<lparr>Version = 1, TimestampMs = 1767225600000, StationCount = 1,
                      IntCount = 1, Reserved = 0\<rparr>,
           Stations = [\<lparr>ID = 0x04030201, PGA = 1 / 2, PGV = 3 / 2,
                        Station.Intensity = 7, IsAlert = False\<rparr>],
           AreaIntensities = [\<lparr>Code = 5, Intensity = 7\<rparr>]\<rparr>, [] @ [0xDE, 0xAD])"
  using Parse_ignores_trailing [OF Parse_example, of "[0xDE, 0xAD]"] Parse_example
  by simp

end
